theory Spec2Isabelle
  imports Main "HOL-Library.Word" "HOL-Library.Monad_Syntax"
begin

section \<open>The input stream\<close>

text \<open>
  The line reader works on a C++ \<open>istream\<close> and looks at it only through \<open>good()\<close>,
  \<open>get(char&)\<close>, \<open>clear()\<close> and \<open>seekg(0)\<close>.  The model keeps what these four can
  observe: the characters that are still delivered (\<open>unread\<close>), the whole content that
  \<open>seekg(0)\<close> goes back to, the error state (\<open>rdstate\<close>, \<open>None\<close> when the stream is
  good), and the reason why delivery stops after the last character of \<open>unread\<close>
  (\<open>ending\<close>): the end of the data, or a read error of the device.
\<close>

datatype failure = EndOfStream | ReadError

record istream =
  content :: string
  unread :: string
  ending :: failure
  rdstate :: "failure option"

definition good :: "istream \<Rightarrow> bool" where
  "good s = (rdstate s = None)"

text \<open>\<open>get(c)\<close>: stores the next character in \<open>c\<close>; when there is none the stream
  leaves the good state and \<open>c\<close> keeps its value.\<close>

definition get :: "char \<Rightarrow> istream \<Rightarrow> char \<times> istream" where
  "get c s =
     (if good s then
        (case unread s of
           [] \<Rightarrow> (c, s\<lparr>rdstate := Some (ending s)\<rparr>)
         | x # xs \<Rightarrow> (x, s\<lparr>unread := xs\<rparr>))
      else (c, s))"

definition clear :: "istream \<Rightarrow> istream" where
  "clear s = s\<lparr>rdstate := None\<rparr>"

definition seekg0 :: "istream \<Rightarrow> istream" where
  "seekg0 s = s\<lparr>unread := content s\<rparr>"

section \<open>C strings\<close>

text \<open>
  A \<open>const char*\<close> result is read by its users up to the first NUL, so the text that a
  buffer holds as a C string is its prefix before the first NUL.
\<close>

definition NUL :: char where
  "NUL = CHR 0x00"

definition newline :: char where
  "newline = CHR 0x0A"

definition cstr :: "string \<Rightarrow> string" where
  "cstr buf = takeWhile (\<lambda>c. c \<noteq> NUL) buf"

text \<open>\<open>isspace\<close> of the C locale: space, \<open>\t\<close>, \<open>\n\<close>, \<open>\v\<close>, \<open>\f\<close>, \<open>\r\<close>.\<close>

definition isspace :: "char \<Rightarrow> bool" where
  "isspace c = (c \<in> {CHR 0x20, CHR 0x09, CHR 0x0A, CHR 0x0B, CHR 0x0C, CHR 0x0D})"

section \<open>The line reader: \<open>TestSuite::TestDataRaw\<close>\<close>

type_synonym uint = "32 word"
type_synonym ulong = "64 word"

record TestDataRaw =
  dataStream :: istream
  lineCounter :: ulong

text \<open>\<open>TestDataRaw::reset\<close>\<close>

definition reset :: "'a TestDataRaw_scheme \<Rightarrow> 'a TestDataRaw_scheme" where
  "reset td = td\<lparr>dataStream := seekg0 (clear (dataStream td)), lineCounter := 0\<rparr>"

text \<open>The inner loop of \<open>readLine\<close>:
  \<open>while (good() && inputChar != '\n') { lineAsStream.put(inputChar); get(inputChar); }\<close>\<close>

function readLine_loop :: "char \<Rightarrow> string \<Rightarrow> istream \<Rightarrow> string \<times> istream" where
  "readLine_loop inputChar lineAsStream s =
     (if good s \<and> inputChar \<noteq> newline then
        (case get inputChar s of
           (inputChar', s') \<Rightarrow> readLine_loop inputChar' (lineAsStream @ [inputChar]) s')
      else (lineAsStream, s))"
  by pat_completeness auto
termination
  by (relation "measure (\<lambda>(c, l, s). if good s then Suc (length (unread s)) else 0)")
     (auto simp: get_def good_def split: if_splits list.splits)

declare readLine_loop.simps [simp del]

text \<open>
  \<open>TestDataRaw::readLine\<close>.  \<open>inputChar\<close> is not initialised in the source; it is read
  only after a \<open>get\<close> that succeeded.  The result is \<open>lineAsStream.str()\<close>, a C string.
\<close>

definition readLine :: "'a TestDataRaw_scheme \<Rightarrow> string option \<times> 'a TestDataRaw_scheme" where
  "readLine td =
     (if good (dataStream td) then
        (case get NUL (dataStream td) of
           (inputChar, s1) \<Rightarrow>
             if good s1 then
               (case readLine_loop inputChar [] s1 of
                  (lineAsStream, s2) \<Rightarrow>
                    (Some (cstr (lineAsStream @ [NUL])),
                     td\<lparr>dataStream := s2, lineCounter := lineCounter td + 1\<rparr>))
             else (None, td\<lparr>dataStream := s1\<rparr>))
      else (None, td))"

section \<open>The block reader: \<open>TestSuite::TestData\<close>\<close>

record TestData = TestDataRaw +
  lastLineRead :: "string option"

text \<open>The static helpers of the block reader, on C strings.\<close>

definition startOfData :: "string \<Rightarrow> string" where
  "startOfData text = dropWhile isspace text"

definition isTestName :: "string \<Rightarrow> bool" where
  "isTestName text = (case text of [] \<Rightarrow> False | c # _ \<Rightarrow> c = CHR '':'')"

definition isComment :: "string \<Rightarrow> bool" where
  "isComment stringToCheck = (take 2 stringToCheck = ''//'')"

text \<open>\<open>extractTestName\<close> copies the text after the colon and cuts trailing white space.
  Its callers pass a text that starts with a colon (the source asserts it).\<close>

definition extractTestName :: "string \<Rightarrow> string" where
  "extractTestName text = rev (dropWhile isspace (rev (tl text)))"

text \<open>
  The loop of \<open>readTestName\<close>, with its variables \<open>line\<close> and \<open>testName\<close>:
  a line that is no name marker is dropped and the next one is read.
\<close>

function readTestName_loop ::
  "string option \<Rightarrow> string option \<Rightarrow> TestData \<Rightarrow> string option \<times> TestData" where
  "readTestName_loop line testName td =
     (if line \<noteq> None \<and> testName = None then
        (let cookedLine = dropWhile isspace (the line) in
         if isTestName cookedLine then
           readTestName_loop line (Some (extractTestName cookedLine)) td
         else
           (case readLine td of (line', td') \<Rightarrow> readTestName_loop line' testName td'))
      else (testName, td))"
  by pat_completeness auto

text \<open>What one call of \<open>readLine\<close> does to the stream, in closed form.\<close>

lemma readLine_loop_not_good:
  "\<not> good s \<Longrightarrow> readLine_loop c acc s = (acc, s)"
  by (subst readLine_loop.simps) simp

lemma readLine_loop_eq:
  "good s \<Longrightarrow> readLine_loop c acc s =
     (if c = newline then (acc, s)
      else if newline \<in> set (unread s)
        then (acc @ c # takeWhile (\<lambda>x. x \<noteq> newline) (unread s),
              s\<lparr>unread := tl (dropWhile (\<lambda>x. x \<noteq> newline) (unread s))\<rparr>)
        else (acc @ c # unread s, s\<lparr>unread := [], rdstate := Some (ending s)\<rparr>))"
proof (induction "unread s" arbitrary: c acc s)
  case Nil
  have "\<not> good (s\<lparr>rdstate := Some (ending s)\<rparr>)"
    by (simp add: good_def)
  then show ?case
    using Nil by (subst readLine_loop.simps) (simp add: get_def readLine_loop_not_good)
next
  case (Cons x xs)
  have g: "good (s\<lparr>unread := xs\<rparr>)"
    using Cons.prems by (simp add: good_def)
  have u: "xs = unread (s\<lparr>unread := xs\<rparr>)"
    by simp
  show ?case
    using Cons.hyps(1) [OF u g, of x "acc @ [c]"] Cons.hyps(2) [symmetric] Cons.prems
    by (subst readLine_loop.simps) (simp add: get_def)
qed

lemma readLine_eq:
  "readLine td =
     (let s = dataStream td; u = unread s in
      if \<not> good s then (None, td)
      else if u = [] then (None, td\<lparr>dataStream := s\<lparr>rdstate := Some (ending s)\<rparr>\<rparr>)
      else (Some (cstr (takeWhile (\<lambda>x. x \<noteq> newline) u)),
            td\<lparr>dataStream :=
                 (if newline \<in> set u
                  then s\<lparr>unread := tl (dropWhile (\<lambda>x. x \<noteq> newline) u)\<rparr>
                  else s\<lparr>unread := [], rdstate := Some (ending s)\<rparr>),
               lineCounter := lineCounter td + 1\<rparr>))"
proof (cases "good (dataStream td)")
  case False
  then show ?thesis by (simp add: readLine_def Let_def)
next
  case True
  show ?thesis
  proof (cases "unread (dataStream td)")
    case Nil
    then show ?thesis
      using True by (simp add: readLine_def Let_def get_def good_def)
  next
    case (Cons x xs)
    have g: "good ((dataStream td)\<lparr>unread := xs\<rparr>)"
      using True by (simp add: good_def)
    have c: "cstr (l @ [NUL]) = cstr l" for l
      by (induction l) (simp_all add: cstr_def)
    have t: "newline \<notin> set xs \<Longrightarrow> takeWhile (\<lambda>x. x \<noteq> newline) xs = xs"
      by (auto simp: takeWhile_eq_all_conv)
    show ?thesis
      using True Cons g
      by (simp add: readLine_def Let_def get_def readLine_loop_eq [OF g] c t)
  qed
qed


text \<open>The number of characters the stream can still deliver bounds every loop below.\<close>

definition remaining :: "'a TestDataRaw_scheme \<Rightarrow> nat" where
  "remaining td = length (unread (dataStream td))"

lemma length_tl_dropWhile: "length (tl (dropWhile P xs)) \<le> length xs"
proof -
  have "length (dropWhile P xs) \<le> length xs"
    by (rule length_dropWhile_le)
  then show ?thesis by simp
qed

lemma readLine_Some_less:
  "readLine td = (Some l, td') \<Longrightarrow> remaining td' < remaining td"
proof -
  assume a: "readLine td = (Some l, td')"
  have "length (tl (dropWhile (\<lambda>x. x \<noteq> newline) (unread (dataStream td))))
        < length (unread (dataStream td))"
    if "newline \<in> set (unread (dataStream td))"
  proof -
    have "dropWhile (\<lambda>x. x \<noteq> newline) (unread (dataStream td)) \<noteq> []"
      using that by (simp add: dropWhile_eq_Nil_conv)
    then have "length (tl (dropWhile (\<lambda>x. x \<noteq> newline) (unread (dataStream td))))
        < length (dropWhile (\<lambda>x. x \<noteq> newline) (unread (dataStream td)))"
      by (cases "dropWhile (\<lambda>x. x \<noteq> newline) (unread (dataStream td))") simp_all
    also have "\<dots> \<le> length (unread (dataStream td))"
      by (rule length_dropWhile_le)
    finally show ?thesis .
  qed
  then show ?thesis
    using a by (auto simp: readLine_eq Let_def remaining_def split: if_splits)
qed

lemma readLine_le: "readLine td = (r, td') \<Longrightarrow> remaining td' \<le> remaining td"
  using length_tl_dropWhile [of "\<lambda>x. x \<noteq> newline" "unread (dataStream td)"]
  by (auto simp: readLine_eq Let_def remaining_def split: if_splits)

lemma readLine_more: "readLine td = (r, td') \<Longrightarrow> TestDataRaw.more td' = TestDataRaw.more td"
  by (auto simp: readLine_eq Let_def split: if_splits)

lemma readLine_lastLineRead [simp]: "lastLineRead (snd (readLine td)) = lastLineRead td"
  by (simp add: readLine_eq Let_def)

termination readTestName_loop
proof (relation "measure (\<lambda>(line, testName, td).
          2 * remaining td + (if line \<noteq> None \<and> testName = None then 1 else 0))", goal_cases)
  case 1
  then show ?case by simp
next
  case (2 line testName td cookedLine)
  then show ?case by simp
next
  case (3 line testName td cookedLine line' td')
  then have "readLine td = (line', td')" by simp
  from readLine_le [OF this] readLine_Some_less [of td _ td'] this
  show ?case using 3 by (cases line') auto
qed

declare readTestName_loop.simps [simp del]

text \<open>\<open>TestData::readTestName\<close>: the line kept by \<open>readTestCase\<close>, when there is one, is
  taken before any line is read from the stream.\<close>

definition readTestName :: "TestData \<Rightarrow> string option \<times> TestData" where
  "readTestName td =
     (case (if lastLineRead td \<noteq> None
            then (lastLineRead td, td\<lparr>lastLineRead := None\<rparr>)
            else readLine td) of
        (line, td1) \<Rightarrow> readTestName_loop line None td1)"

text \<open>
  The loop of \<open>readTestCase\<close>, with its variables \<open>line\<close> and \<open>testCase\<close>: a name marker
  is kept in \<open>lastLineRead\<close>, an empty line or a comment is dropped, anything else is
  the test case.
\<close>

function readTestCase_loop ::
  "string option \<Rightarrow> string option \<Rightarrow> TestData \<Rightarrow> string option \<times> TestData" where
  "readTestCase_loop line testCase td =
     (if line \<noteq> None \<and> testCase = None \<and> lastLineRead td = None then
        (let data = startOfData (the line) in
         if isTestName data then
           readTestCase_loop line testCase (td\<lparr>lastLineRead := line\<rparr>)
         else if length data = 0 \<or> isComment data then
           (case readLine td of (line', td') \<Rightarrow> readTestCase_loop line' testCase td')
         else
           readTestCase_loop line (Some data) td)
      else (testCase, td))"
  by pat_completeness auto
termination
proof (relation "measure (\<lambda>(line, testCase, td).
          2 * remaining td +
          (if line \<noteq> None \<and> testCase = None \<and> lastLineRead td = None then 1 else 0))",
       goal_cases)
  case 1
  then show ?case by simp
next
  case (2 line testCase td data)
  then show ?case by (simp add: remaining_def)
next
  case (3 line testCase td data line' td')
  then have "readLine td = (line', td')" by simp
  from readLine_le [OF this] readLine_Some_less [of td _ td'] this
  show ?case using 3 by (cases line') auto
next
  case (4 line testCase td data)
  then show ?case by simp
qed

declare readTestCase_loop.simps [simp del]

text \<open>\<open>TestData::readTestCase\<close>.  The source reads a line and then asserts that no line
  is being kept; a failed assertion ends the program, which is the result \<open>None\<close>.\<close>

definition readTestCase :: "TestData \<Rightarrow> (string option \<times> TestData) option" where
  "readTestCase td =
     (case readLine td of
        (line, td1) \<Rightarrow>
          if lastLineRead td1 \<noteq> None then None
          else Some (readTestCase_loop line None td1))"


section \<open>Test objects\<close>

datatype TestResult = pass | fail | abortThisTest | abortAllTests

text \<open>\<open>TestSuite::TestCase\<close>: the number of the case in its block, the line where it was
  found, and its text.\<close>

datatype TestCase = TestCase (number: uint) (caseLineCounter: uint) (dataAsText: string)

text \<open>
  What happens during a run is kept in one list, in the order of the source: every call
  of a reporter hook (the \<open>log...\<close> methods, which a subclass may override) and the
  message that \<open>runTests\<close> writes itself, every line a test method writes to the log or
  reads from the line reader, and, as marks for the theorems, every call of
  \<open>readTestName\<close> and \<open>readTestCase\<close> with its result and every call of a test method
  with the case it got and the result it gave.  The default hooks \<open>logHeader\<close>,
  \<open>logFooter\<close> and \<open>logTestCasePassed\<close> write nothing.
\<close>

datatype event =
    ReadTestName "string option"
  | ReadTestCase "string option"
  | TestMethod string TestCase TestResult
  | UserReadLine "string option"
  | UserLog string
  | LogHeader
  | LogFooter
  | LogTestHeader string
  | LogUnknownTestName string
  | LogTestCasePassed string TestCase
  | LogTestCaseFailed string TestCase
  | LogTestAborted string
  | LogAllTestsAborted
  | LogTestFooter string uint uint
  | NoValidTestNames

text \<open>
  A test method is user code.  It sees its test case, may call \<open>testData.readLine()\<close>
  and \<open>testData.lineCounter()\<close> of the line reader, may write to the log, and returns a
  \<open>TestResult\<close>; this is what an \<open>action\<close> tree says.  Whatever else the method remembers
  between calls is a function of what happened before, so the method is given the
  events so far.
\<close>

datatype action =
    Return TestResult
  | ReadLine "string option \<Rightarrow> action"
  | LineCounter "ulong \<Rightarrow> action"
  | Log string action

record Test =
  name :: string
  testMethod :: "event list \<Rightarrow> TestCase \<Rightarrow> action"

section \<open>The registry\<close>

text \<open>
  The static list \<open>_tests\<close>, newest node first.  \<open>registerTest\<close> also registers
  \<open>atExit\<close> the first time it runs (taken to succeed); the assertion there says that
  the list is empty at that time.
\<close>

definition registerTest :: "Test \<Rightarrow> Test list \<times> bool \<Rightarrow> (Test list \<times> bool) option" where
  "registerTest test st =
     (case st of (tests, atExitRegistered) \<Rightarrow>
        if \<not> atExitRegistered then
          (if tests \<noteq> [] then None else Some (test # tests, True))
        else Some (test # tests, atExitRegistered))"

text \<open>\<open>getTest\<close>: the first node of the list whose test has the name.\<close>

fun getTest :: "string \<Rightarrow> Test list \<Rightarrow> Test option" where
  "getTest testName [] = None"
| "getTest testName (current # rest) =
     (if name current = testName then Some current else getTest testName rest)"

section \<open>The orchestrator: \<open>TestSuite\<close>\<close>

record TestSuite =
  testData :: TestData
  trace :: "event list"
  totalTestCases :: uint
  totalFailedTestCases :: uint

text \<open>An \<open>assert\<close> of the source that fails ends the program: the result \<open>None\<close>.\<close>

definition assert :: "bool \<Rightarrow> unit option" where
  "assert b = (if b then Some () else None)"

text \<open>\<open>assertInvariants\<close>; the first argument is the static list \<open>_tests\<close>.\<close>

definition assertInvariants :: "Test list \<Rightarrow> TestSuite \<Rightarrow> bool" where
  "assertInvariants registry ts =
     (registry \<noteq> [] \<and> totalTestCases ts \<ge> totalFailedTestCases ts)"

definition emit :: "event \<Rightarrow> TestSuite \<Rightarrow> TestSuite" where
  "emit e ts = ts\<lparr>trace := trace ts @ [e]\<rparr>"

text \<open>The reporter hooks.  \<open>logTestFooter\<close> asserts that no more cases failed than ran.\<close>

definition logTestFooter :: "Test \<Rightarrow> uint \<Rightarrow> uint \<Rightarrow> TestSuite \<Rightarrow> TestSuite option" where
  "logTestFooter test numCases numFailedCases ts =
     do { assert (numCases \<ge> numFailedCases);
          Some (emit (LogTestFooter (name test) numCases numFailedCases) ts) }"

text \<open>\<open>prepareForTesting\<close>\<close>

definition prepareForTesting :: "Test list \<Rightarrow> TestSuite \<Rightarrow> TestSuite option" where
  "prepareForTesting registry ts =
     do { assert (assertInvariants registry ts);
          let ts1 = ts\<lparr>totalTestCases := 0, totalFailedTestCases := 0,
                       testData := reset (testData ts)\<rparr>;
          assert (assertInvariants registry ts1);
          Some ts1 }"

text \<open>
  \<open>getTests\<close>, both overloads: the names are looked up one after the other in the
  registry; a name that is not there is logged, a test that is found is put in front
  of the list built so far.
\<close>

fun getTests_loop :: "Test list \<Rightarrow> string list \<Rightarrow> Test list \<Rightarrow> TestSuite \<Rightarrow> Test list \<times> TestSuite" where
  "getTests_loop registry [] tests ts = (tests, ts)"
| "getTests_loop registry (testName # testNames) tests ts =
     (case getTest testName registry of
        None \<Rightarrow> getTests_loop registry testNames tests (emit (LogUnknownTestName testName) ts)
      | Some test \<Rightarrow> getTests_loop registry testNames (test # tests) ts)"

definition getTests :: "Test list \<Rightarrow> string list \<Rightarrow> TestSuite \<Rightarrow> (Test list \<times> TestSuite) option" where
  "getTests registry testNames ts =
     do { assert (assertInvariants registry ts);
          Some (getTests_loop registry testNames [] ts) }"

text \<open>Running a test method: the line reader it uses is the one of the suite.\<close>

primrec runAction :: "action \<Rightarrow> TestSuite \<Rightarrow> TestResult \<times> TestSuite" where
  "runAction (Return r) ts = (r, ts)"
| "runAction (ReadLine k) ts =
     (case readLine (testData ts) of
        (l, td) \<Rightarrow> runAction (k l) (emit (UserReadLine l) (ts\<lparr>testData := td\<rparr>)))"
| "runAction (LineCounter k) ts = runAction (k (lineCounter (testData ts))) ts"
| "runAction (Log text a) ts = runAction a (emit (UserLog text) ts)"

text \<open>The local variables of \<open>runTest\<close>.\<close>

record runTestVars =
  testCaseNum :: uint
  abortTest :: bool
  abortAll :: bool
  numFailedTestCases :: uint
  testCaseData :: "string option"

text \<open>One pass through the body of the loop of \<open>runTest\<close>: one test case.\<close>

definition runTest_body :: "Test \<Rightarrow> runTestVars \<Rightarrow> TestSuite \<Rightarrow> (runTestVars \<times> TestSuite) option" where
  "runTest_body test v ts =
     (let v1 = v\<lparr>testCaseNum := testCaseNum v + 1\<rparr>;
          testCase = TestCase (testCaseNum v1) (ucast (lineCounter (testData ts)))
                       (the (testCaseData v1));
          (testResult, ts1) = runAction (testMethod test (trace ts) testCase) ts;
          ts2 = emit (TestMethod (name test) testCase testResult) ts1;
          (v2, ts3) =
            (if testResult = pass then (v1, emit (LogTestCasePassed (name test) testCase) ts2)
             else
               (let v' = v1\<lparr>numFailedTestCases := numFailedTestCases v1 + 1\<rparr>;
                    ts' = emit (LogTestCaseFailed (name test) testCase) ts2
                in if testResult \<noteq> fail then
                     (if testResult = abortAllTests
                      then (v'\<lparr>abortTest := True, abortAll := True\<rparr>, emit LogAllTestsAborted ts')
                      else (v'\<lparr>abortTest := True\<rparr>, emit (LogTestAborted (name test)) ts'))
                   else (v', ts')))
      in do { (d, td) \<leftarrow> readTestCase (testData ts3);
              Some (v2\<lparr>testCaseData := d\<rparr>, emit (ReadTestCase d) (ts3\<lparr>testData := td\<rparr>)) })"


text \<open>One step of each block-reader loop, and what the loops do to the stream.\<close>

lemma readTestName_loop_None [simp]: "readTestName_loop None testName td = (testName, td)"
  by (subst readTestName_loop.simps) simp

lemma readTestName_loop_found [simp]: "readTestName_loop line (Some n) td = (Some n, td)"
  by (subst readTestName_loop.simps) simp

lemma readTestName_loop_Some:
  "readTestName_loop (Some l) None td =
     (if isTestName (dropWhile isspace l) then (Some (extractTestName (dropWhile isspace l)), td)
      else (case readLine td of (line', td') \<Rightarrow> readTestName_loop line' None td'))"
  by (subst readTestName_loop.simps) (simp add: Let_def)

lemma readTestCase_loop_None [simp]: "readTestCase_loop None testCase td = (testCase, td)"
  by (subst readTestCase_loop.simps) simp

lemma readTestCase_loop_found [simp]: "readTestCase_loop line (Some c) td = (Some c, td)"
  by (subst readTestCase_loop.simps) simp

lemma readTestCase_loop_kept [simp]:
  "lastLineRead td \<noteq> None \<Longrightarrow> readTestCase_loop line testCase td = (testCase, td)"
  by (subst readTestCase_loop.simps) auto

lemma readTestCase_loop_Some:
  "lastLineRead td = None \<Longrightarrow>
   readTestCase_loop (Some l) None td =
     (if isTestName (startOfData l) then (None, td\<lparr>lastLineRead := Some l\<rparr>)
      else if startOfData l = [] \<or> isComment (startOfData l)
        then (case readLine td of (line', td') \<Rightarrow> readTestCase_loop line' None td')
      else (Some (startOfData l), td))"
  by (subst readTestCase_loop.simps) (simp add: Let_def)

lemma readTestName_loop_bounds:
  "readTestName_loop line testName td = (r, td') \<Longrightarrow>
     remaining td' \<le> remaining td \<and> lastLineRead td' = lastLineRead td \<and>
     (testName = None \<and> r \<noteq> None \<longrightarrow> line \<noteq> None)"
proof (induction line testName td rule: readTestName_loop.induct)
  case (1 line testName td)
  show ?case
  proof (cases "line \<noteq> None \<and> testName = None")
    case False
    then show ?thesis
      using "1.prems" by (subst (asm) readTestName_loop.simps) auto
  next
    case True
    then obtain l where l: "line = Some l" by auto
    show ?thesis
    proof (cases "isTestName (dropWhile isspace l)")
      case True
      then show ?thesis
        using "1.prems" l \<open>line \<noteq> None \<and> testName = None\<close>
        by (simp add: readTestName_loop_Some)
    next
      case False
      obtain line' td1 where rl: "readLine td = (line', td1)"
        by (cases "readLine td")
      have "readTestName_loop line' testName td1 = (r, td')"
        using "1.prems" l True False rl by (simp add: readTestName_loop_Some)
      from "1.IH"(2) [OF True refl _ rl [symmetric] this] False l
      have "remaining td' \<le> remaining td1 \<and> lastLineRead td' = lastLineRead td1"
        by simp
      moreover have "lastLineRead td1 = lastLineRead td"
        using readLine_lastLineRead [of td] rl by simp
      ultimately show ?thesis
        using readLine_le [OF rl] l by simp
    qed
  qed
qed

lemma readTestCase_loop_bounds:
  "readTestCase_loop line testCase td = (r, td') \<Longrightarrow>
     remaining td' \<le> remaining td \<and>
     (lastLineRead td = None \<and> testCase = None \<and> (r \<noteq> None \<or> lastLineRead td' \<noteq> None)
        \<longrightarrow> line \<noteq> None) \<and>
     (lastLineRead td = None \<and> testCase = None \<and> r \<noteq> None \<longrightarrow> lastLineRead td' = None)"
proof (induction line testCase td rule: readTestCase_loop.induct)
  case (1 line testCase td)
  show ?case
  proof (cases "line \<noteq> None \<and> testCase = None \<and> lastLineRead td = None")
    case False
    then show ?thesis
      using "1.prems" by (subst (asm) readTestCase_loop.simps) auto
  next
    case True
    then obtain l where l: "line = Some l" by auto
    have k: "lastLineRead td = None" and tc: "testCase = None"
      using True by simp_all
    consider (marker) "isTestName (startOfData l)"
      | (skip) "\<not> isTestName (startOfData l)" "startOfData l = [] \<or> isComment (startOfData l)"
      | (data) "\<not> isTestName (startOfData l)" "\<not> (startOfData l = [] \<or> isComment (startOfData l))"
      by blast
    then show ?thesis
    proof cases
      case marker
      then show ?thesis
        using "1.prems" l tc by (auto simp: readTestCase_loop_Some [OF k] remaining_def)
    next
      case data
      then show ?thesis
        using "1.prems" l tc k by (auto simp: readTestCase_loop_Some [OF k])
    next
      case skip
      obtain line' td1 where rl: "readLine td = (line', td1)"
        by (cases "readLine td")
      have run: "readTestCase_loop line' testCase td1 = (r, td')"
        using "1.prems" l tc skip rl by (simp add: readTestCase_loop_Some [OF k])
      have d: "length (startOfData (the line)) = 0 \<or> isComment (startOfData (the line))"
        using skip l by simp
      have nm: "\<not> isTestName (startOfData (the line))"
        using skip l by simp
      have k1: "lastLineRead td1 = None"
        using readLine_lastLineRead [of td] rl k by simp
      from "1.IH"(2) [OF True refl nm d rl [symmetric] run] k1 tc
      show ?thesis
        using readLine_le [OF rl] l by auto
    qed
  qed
qed

text \<open>The measure of the driving loops: a kept line counts like half a character.\<close>

definition weight :: "TestData \<Rightarrow> nat" where
  "weight td = 2 * remaining td + (if lastLineRead td \<noteq> None then 1 else 0)"

lemma readTestName_bounds:
  "readTestName td = (r, td') \<Longrightarrow>
     lastLineRead td' = None \<and> remaining td' \<le> remaining td \<and> weight td' \<le> weight td \<and>
     (r \<noteq> None \<longrightarrow> weight td' < weight td)"
proof (cases "lastLineRead td \<noteq> None")
  case True
  assume a: "readTestName td = (r, td')"
  then have "readTestName_loop (lastLineRead td) None (td\<lparr>lastLineRead := None\<rparr>) = (r, td')"
    using True by (simp add: readTestName_def)
  from readTestName_loop_bounds [OF this] True
  show ?thesis by (auto simp: weight_def remaining_def)
next
  case False
  assume a: "readTestName td = (r, td')"
  obtain line td1 where rl: "readLine td = (line, td1)"
    by (cases "readLine td")
  have "readTestName_loop line None td1 = (r, td')"
    using a False rl by (simp add: readTestName_def)
  from readTestName_loop_bounds [OF this]
  have b: "remaining td' \<le> remaining td1" "lastLineRead td' = lastLineRead td1"
    "r \<noteq> None \<longrightarrow> line \<noteq> None"
    by simp_all
  have k1: "lastLineRead td1 = None"
    using readLine_lastLineRead [of td] rl False by simp
  have "r \<noteq> None \<longrightarrow> remaining td1 < remaining td"
    using b(3) readLine_Some_less [of td _ td1] rl by auto
  then show ?thesis
    using b k1 readLine_le [OF rl] False by (auto simp: weight_def)
qed

lemma readTestCase_bounds:
  "readTestCase td = Some (r, td') \<Longrightarrow>
     lastLineRead td = None \<and> remaining td' \<le> remaining td \<and> weight td' \<le> weight td \<and>
     (r \<noteq> None \<longrightarrow> remaining td' < remaining td \<and> lastLineRead td' = None)"
proof -
  assume a: "readTestCase td = Some (r, td')"
  obtain line td1 where rl: "readLine td = (line, td1)"
    by (cases "readLine td")
  have k1: "lastLineRead td1 = None" and run: "readTestCase_loop line None td1 = (r, td')"
    using a rl by (auto simp: readTestCase_def split: if_splits)
  have k: "lastLineRead td = None"
    using readLine_lastLineRead [of td] rl k1 by simp
  from readTestCase_loop_bounds [OF run] k1
  have b: "remaining td' \<le> remaining td1"
    "r \<noteq> None \<or> lastLineRead td' \<noteq> None \<longrightarrow> line \<noteq> None"
    "r \<noteq> None \<longrightarrow> lastLineRead td' = None"
    by simp_all
  have "r \<noteq> None \<or> lastLineRead td' \<noteq> None \<longrightarrow> remaining td1 < remaining td"
    using b(2) readLine_Some_less [of td _ td1] rl by auto
  then show ?thesis
    using b k readLine_le [OF rl] by (auto simp: weight_def)
qed

lemma runAction_bounds:
  "runAction a ts = (r, ts') \<Longrightarrow>
     remaining (testData ts') \<le> remaining (testData ts) \<and>
     lastLineRead (testData ts') = lastLineRead (testData ts) \<and>
     totalTestCases ts' = totalTestCases ts \<and>
     totalFailedTestCases ts' = totalFailedTestCases ts"
proof (induction a arbitrary: ts)
  case (Return x)
  then show ?case by simp
next
  case (ReadLine k)
  obtain l td where rl: "readLine (testData ts) = (l, td)"
    by (cases "readLine (testData ts)")
  have "runAction (k l) (emit (UserReadLine l) (ts\<lparr>testData := td\<rparr>)) = (r, ts')"
    using ReadLine.prems rl by simp
  from ReadLine.IH [OF _ this] readLine_le [OF rl] readLine_lastLineRead [of "testData ts"] rl
  show ?case by (simp add: emit_def)
next
  case (LineCounter k)
  have "runAction (k (lineCounter (testData ts))) ts = (r, ts')"
    using LineCounter.prems by simp
  from LineCounter.IH [OF rangeI this]
  show ?case .
next
  case (Log msg a)
  from Log.IH [of "emit (UserLog msg) ts"] Log.prems
  show ?case by (simp add: emit_def)
qed


text \<open>What the body of the loop of \<open>runTest\<close> does, in one equation: the events that
  follow the call of the test method depend on its result only.\<close>

definition verdictEvents :: "string \<Rightarrow> TestCase \<Rightarrow> TestResult \<Rightarrow> event list" where
  "verdictEvents nm tc r =
     (if r = pass then [LogTestCasePassed nm tc]
      else LogTestCaseFailed nm tc #
           (if r = fail then []
            else if r = abortAllTests then [LogAllTestsAborted]
            else [LogTestAborted nm]))"

lemma runTest_body_eq:
  "runTest_body test v ts =
     (let tc = TestCase (testCaseNum v + 1) (ucast (lineCounter (testData ts)))
                 (the (testCaseData v)) in
      case runAction (testMethod test (trace ts) tc) ts of
        (r, ts1) \<Rightarrow>
          (case readTestCase (testData ts1) of
             None \<Rightarrow> None
           | Some (d, td) \<Rightarrow>
               Some (v\<lparr>testCaseNum := testCaseNum v + 1,
                       abortTest := (abortTest v \<or> r = abortThisTest \<or> r = abortAllTests),
                       abortAll := (abortAll v \<or> r = abortAllTests),
                       numFailedTestCases := numFailedTestCases v + (if r = pass then 0 else 1),
                       testCaseData := d\<rparr>,
                     ts1\<lparr>testData := td,
                         trace := trace ts1 @ TestMethod (name test) tc r #
                                  verdictEvents (name test) tc r @ [ReadTestCase d]\<rparr>)))"
proof -
  obtain r ts1 where ra: "runAction (testMethod test (trace ts)
      (TestCase (testCaseNum v + 1) (ucast (lineCounter (testData ts))) (the (testCaseData v)))) ts
      = (r, ts1)"
    by (cases "runAction (testMethod test (trace ts)
      (TestCase (testCaseNum v + 1) (ucast (lineCounter (testData ts))) (the (testCaseData v)))) ts")
  show ?thesis
    by (cases r; cases "readTestCase (testData ts1)")
       (auto simp: runTest_body_def Let_def ra emit_def verdictEvents_def)
qed

lemma runTest_body_bounds:
  assumes "runTest_body test v ts = Some (v', ts')"
  shows "remaining (testData ts') \<le> remaining (testData ts)"
    and "weight (testData ts') \<le> weight (testData ts)"
    and "testCaseData v' \<noteq> None \<Longrightarrow> remaining (testData ts') < remaining (testData ts)"
    and "totalTestCases ts' = totalTestCases ts"
    and "totalFailedTestCases ts' = totalFailedTestCases ts"
proof -
  let ?tc = "TestCase (testCaseNum v + 1) (ucast (lineCounter (testData ts))) (the (testCaseData v))"
  obtain r ts1 where ra: "runAction (testMethod test (trace ts) ?tc) ts = (r, ts1)"
    by (cases "runAction (testMethod test (trace ts) ?tc) ts")
  obtain d td where rc: "readTestCase (testData ts1) = Some (d, td)"
    and v': "testCaseData v' = d" and ts': "testData ts' = td"
    and t: "totalTestCases ts' = totalTestCases ts1"
           "totalFailedTestCases ts' = totalFailedTestCases ts1"
    using assms ra by (auto simp: runTest_body_eq Let_def split: option.splits)
  note a = runAction_bounds [OF ra]
  note b = readTestCase_bounds [OF rc]
  have w: "weight (testData ts1) \<le> weight (testData ts)"
    using a by (simp add: weight_def)
  show "remaining (testData ts') \<le> remaining (testData ts)"
    using a b ts' by simp
  show "weight (testData ts') \<le> weight (testData ts)"
    using w b ts' by simp
  show "testCaseData v' \<noteq> None \<Longrightarrow> remaining (testData ts') < remaining (testData ts)"
    using a b ts' v' by simp
  show "totalTestCases ts' = totalTestCases ts" "totalFailedTestCases ts' = totalFailedTestCases ts"
    using a t by simp_all
qed

text \<open>The loop of \<open>runTest\<close>:
  \<open>while (!abortTest && (testCaseData != NULL)) { ... }\<close>\<close>

function runTest_loop :: "Test \<Rightarrow> runTestVars \<Rightarrow> TestSuite \<Rightarrow> (runTestVars \<times> TestSuite) option" where
  "runTest_loop test v ts =
     (if \<not> abortTest v \<and> testCaseData v \<noteq> None then
        (case runTest_body test v ts of
           None \<Rightarrow> None
         | Some (v', ts') \<Rightarrow> runTest_loop test v' ts')
      else Some (v, ts))"
  by pat_completeness auto
termination
proof (relation "measure (\<lambda>(test, v, ts).
          2 * remaining (testData ts) + (if \<not> abortTest v \<and> testCaseData v \<noteq> None then 1 else 0))",
       goal_cases)
  case 1
  then show ?case by simp
next
  case (2 test v ts x2 v' ts')
  then have "runTest_body test v ts = Some (v', ts')" by simp
  from runTest_body_bounds(1,3) [OF this]
  show ?case using 2 by auto
qed

declare runTest_loop.simps [simp del]

text \<open>\<open>runTest\<close>: the result says whether testing goes on (\<open>!abortAll\<close>).\<close>

definition runTest :: "Test list \<Rightarrow> Test \<Rightarrow> TestSuite \<Rightarrow> (bool \<times> TestSuite) option" where
  "runTest registry test ts =
     do { assert (assertInvariants registry ts);
          (d, td) \<leftarrow> readTestCase (testData ts);
          let ts1 = emit (LogTestHeader (name test)) (emit (ReadTestCase d) (ts\<lparr>testData := td\<rparr>));
          (v, ts2) \<leftarrow> runTest_loop test
             \<lparr>testCaseNum = 0, abortTest = False, abortAll = False,
              numFailedTestCases = 0, testCaseData = d\<rparr> ts1;
          ts3 \<leftarrow> logTestFooter test (testCaseNum v) (numFailedTestCases v) ts2;
          Some (\<not> abortAll v,
                ts3\<lparr>totalTestCases := totalTestCases ts3 + testCaseNum v,
                    totalFailedTestCases := totalFailedTestCases ts3 + numFailedTestCases v\<rparr>) }"


lemma runTest_loop_stop [simp]:
  "abortTest v \<or> testCaseData v = None \<Longrightarrow> runTest_loop test v ts = Some (v, ts)"
  by (subst runTest_loop.simps) auto

lemma runTest_loop_step:
  "\<not> abortTest v \<Longrightarrow> testCaseData v \<noteq> None \<Longrightarrow>
   runTest_loop test v ts =
     (case runTest_body test v ts of
        None \<Rightarrow> None
      | Some (v', ts') \<Rightarrow> runTest_loop test v' ts')"
  by (subst runTest_loop.simps) simp

lemma runTest_loop_weight:
  "runTest_loop test v ts = Some (v', ts') \<Longrightarrow> weight (testData ts') \<le> weight (testData ts)"
proof (induction test v ts rule: runTest_loop.induct)
  case (1 test v ts)
  show ?case
  proof (cases "\<not> abortTest v \<and> testCaseData v \<noteq> None")
    case False
    then show ?thesis using "1.prems" by auto
  next
    case True
    then obtain v1 ts1 where b: "runTest_body test v ts = Some (v1, ts1)"
      and l: "runTest_loop test v1 ts1 = Some (v', ts')"
      using "1.prems" by (auto simp: runTest_loop_step split: option.splits)
    from "1.IH" [OF True b refl l] runTest_body_bounds(2) [OF b]
    show ?thesis by simp
  qed
qed

lemma runTest_SomeE:
  assumes "runTest registry test ts = Some (b, ts')"
  obtains d td v ts2 where
    "assertInvariants registry ts"
    "readTestCase (testData ts) = Some (d, td)"
    "runTest_loop test
       \<lparr>testCaseNum = 0, abortTest = False, abortAll = False,
        numFailedTestCases = 0, testCaseData = d\<rparr>
       (ts\<lparr>testData := td, trace := trace ts @ [ReadTestCase d, LogTestHeader (name test)]\<rparr>)
     = Some (v, ts2)"
    "numFailedTestCases v \<le> testCaseNum v"
    "b = (\<not> abortAll v)"
    "ts' = ts2\<lparr>trace := trace ts2 @ [LogTestFooter (name test) (testCaseNum v) (numFailedTestCases v)],
              totalTestCases := totalTestCases ts2 + testCaseNum v,
              totalFailedTestCases := totalFailedTestCases ts2 + numFailedTestCases v\<rparr>"
proof -
  have inv: "assertInvariants registry ts"
    using assms by (auto simp: runTest_def assert_def split: if_splits)
  obtain d td where rc: "readTestCase (testData ts) = Some (d, td)"
    using assms inv by (cases "readTestCase (testData ts)") (auto simp: runTest_def assert_def)
  let ?v0 = "\<lparr>testCaseNum = 0, abortTest = False, abortAll = False,
        numFailedTestCases = 0, testCaseData = d\<rparr>"
  let ?ts1 = "ts\<lparr>testData := td, trace := trace ts @ [ReadTestCase d, LogTestHeader (name test)]\<rparr>"
  have run: "runTest registry test ts =
      do { (v, ts2) \<leftarrow> runTest_loop test ?v0 ?ts1;
           ts3 \<leftarrow> logTestFooter test (testCaseNum v) (numFailedTestCases v) ts2;
           Some (\<not> abortAll v,
                ts3\<lparr>totalTestCases := totalTestCases ts3 + testCaseNum v,
                    totalFailedTestCases := totalFailedTestCases ts3 + numFailedTestCases v\<rparr>) }"
    using inv rc by (simp add: runTest_def assert_def emit_def)
  obtain v ts2 where l: "runTest_loop test ?v0 ?ts1 = Some (v, ts2)"
    using assms run by (cases "runTest_loop test ?v0 ?ts1") auto
  have f: "numFailedTestCases v \<le> testCaseNum v"
    using assms run l by (auto simp: logTestFooter_def assert_def split: if_splits)
  have "b = (\<not> abortAll v)"
    and "ts' = ts2\<lparr>trace := trace ts2 @ [LogTestFooter (name test) (testCaseNum v) (numFailedTestCases v)],
              totalTestCases := totalTestCases ts2 + testCaseNum v,
              totalFailedTestCases := totalFailedTestCases ts2 + numFailedTestCases v\<rparr>"
    using assms run l f by (simp_all add: logTestFooter_def assert_def emit_def)
  with inv rc l f show thesis
    by (rule that)
qed

lemma runTest_weight:
  assumes "runTest registry test ts = Some (b, ts')"
  shows "weight (testData ts') \<le> weight (testData ts)"
proof -
  from assms obtain d td v ts2 where rc: "readTestCase (testData ts) = Some (d, td)"
    and l: "runTest_loop test
       \<lparr>testCaseNum = 0, abortTest = False, abortAll = False,
        numFailedTestCases = 0, testCaseData = d\<rparr>
       (ts\<lparr>testData := td, trace := trace ts @ [ReadTestCase d, LogTestHeader (name test)]\<rparr>)
     = Some (v, ts2)"
    and e: "ts' = ts2\<lparr>trace := trace ts2 @ [LogTestFooter (name test) (testCaseNum v) (numFailedTestCases v)],
              totalTestCases := totalTestCases ts2 + testCaseNum v,
              totalFailedTestCases := totalFailedTestCases ts2 + numFailedTestCases v\<rparr>"
    by (rule runTest_SomeE)
  from runTest_loop_weight [OF l] readTestCase_bounds [OF rc] e
  show ?thesis by simp
qed

text \<open>The body of the loop of \<open>runTests\<close>, with its variables \<open>abortAll\<close> (here
  \<open>aborted\<close>) and \<open>testName\<close>: the test is looked up in the list that was passed, run
  when it is there, and the next name is read unless testing was aborted.\<close>

definition runTests_body ::
  "Test list \<Rightarrow> Test list \<Rightarrow> bool \<times> string option \<Rightarrow> TestSuite \<Rightarrow>
     ((bool \<times> string option) \<times> TestSuite) option" where
  "runTests_body registry tests st ts =
     (case st of (aborted, testName) \<Rightarrow>
        do { (aborted1, ts1) \<leftarrow>
               (case getTest (the testName) tests of
                  None \<Rightarrow> Some (aborted, ts)
                | Some test \<Rightarrow>
                    do { (goOn, ts') \<leftarrow> runTest registry test ts; Some (\<not> goOn, ts') });
             if \<not> aborted1 then
               (case readTestName (testData ts1) of
                  (testName', td) \<Rightarrow>
                    Some ((aborted1, testName'),
                          emit (ReadTestName testName') (ts1\<lparr>testData := td\<rparr>)))
             else Some ((aborted1, testName), ts1) })"

lemma runTests_body_measure:
  assumes "runTests_body registry tests (False, Some n) ts = Some ((aborted', testName'), ts')"
  shows "2 * weight (testData ts') + (if \<not> aborted' \<and> testName' \<noteq> None then 1 else 0)
         < 2 * weight (testData ts) + 1"
proof -
  obtain a1 ts1 where s1: "(case getTest n tests of
                  None \<Rightarrow> Some (False, ts)
                | Some test \<Rightarrow>
                    do { (goOn, ts') \<leftarrow> runTest registry test ts; Some (\<not> goOn, ts') })
               = Some (a1, ts1)"
    and s2: "(if \<not> a1 then
               (case readTestName (testData ts1) of
                  (testName', td) \<Rightarrow>
                    Some ((a1, testName'),
                          emit (ReadTestName testName') (ts1\<lparr>testData := td\<rparr>)))
             else Some ((a1, Some n), ts1)) = Some ((aborted', testName'), ts')"
    using assms by (auto simp: runTests_body_def split: Option.bind_splits)
  have w1: "weight (testData ts1) \<le> weight (testData ts)"
    using s1 runTest_weight [of registry _ ts _ ts1]
    by (auto split: option.splits Option.bind_splits)
  show ?thesis
  proof (cases a1)
    case True
    then show ?thesis using s2 w1 by auto
  next
    case False
    obtain r td where rn: "readTestName (testData ts1) = (r, td)"
      by (cases "readTestName (testData ts1)")
    from readTestName_bounds [OF rn] s2 False rn w1
    show ?thesis by (auto simp: emit_def)
  qed
qed

text \<open>The loop of \<open>runTests\<close>:
  \<open>while (!abortAll && (testName != NULL)) { ... }\<close>\<close>

function runTests_loop ::
  "Test list \<Rightarrow> Test list \<Rightarrow> bool \<times> string option \<Rightarrow> TestSuite \<Rightarrow> TestSuite option" where
  "runTests_loop registry tests st ts =
     (if \<not> fst st \<and> snd st \<noteq> None then
        (case runTests_body registry tests st ts of
           None \<Rightarrow> None
         | Some (st', ts') \<Rightarrow> runTests_loop registry tests st' ts')
      else Some ts)"
  by pat_completeness auto
termination
proof (relation "measure (\<lambda>(registry, tests, st, ts).
          2 * weight (testData ts) + (if \<not> fst st \<and> snd st \<noteq> None then 1 else 0))",
       goal_cases)
  case 1
  then show ?case by simp
next
  case (2 registry tests st ts x2 st' ts')
  obtain n where st: "st = (False, Some n)"
    using 2(1) by (cases st) auto
  have "runTests_body registry tests (False, Some n) ts = Some ((fst st', snd st'), ts')"
    using 2 st by simp
  from runTests_body_measure [OF this]
  show ?case using st by simp
qed

declare runTests_loop.simps [simp del]

text \<open>\<open>runTests\<close>\<close>

definition runTests :: "Test list \<Rightarrow> Test list \<Rightarrow> TestSuite \<Rightarrow> TestSuite option" where
  "runTests registry tests ts =
     do { assert (assertInvariants registry ts);
          if tests = [] then Some (emit NoValidTestNames ts)
          else
            (case readTestName (testData ts) of
               (testName, td) \<Rightarrow>
                 do { ts' \<leftarrow> runTests_loop registry tests (False, testName)
                                (emit (ReadTestName testName) (ts\<lparr>testData := td\<rparr>));
                      assert (assertInvariants registry ts');
                      Some ts' }) }"

text \<open>
  The public operations.  \<open>TestSuite::one\<close>, \<open>TestSuite::group\<close> (the overload with a
  NULL-terminated argument list, whose first name cannot be missing, and the overload
  with an array, which asserts that the array is not empty) and \<open>TestSuite::all\<close>.
\<close>

definition TestSuite_one :: "Test list \<Rightarrow> string \<Rightarrow> TestSuite \<Rightarrow> TestSuite option" where
  "TestSuite_one registry testName ts =
     do { assert (assertInvariants registry ts);
          ts1 \<leftarrow> prepareForTesting registry ts;
          (tests, ts2) \<leftarrow> getTests registry [testName] (emit LogHeader ts1);
          ts3 \<leftarrow> runTests registry tests ts2;
          let ts4 = emit LogFooter ts3;
          assert (assertInvariants registry ts4);
          Some ts4 }"

definition TestSuite_group_va :: "Test list \<Rightarrow> string \<Rightarrow> string list \<Rightarrow> TestSuite \<Rightarrow> TestSuite option" where
  "TestSuite_group_va registry firstTestName argList ts =
     do { assert (assertInvariants registry ts);
          ts1 \<leftarrow> prepareForTesting registry ts;
          (tests, ts2) \<leftarrow> getTests registry (firstTestName # argList) (emit LogHeader ts1);
          ts3 \<leftarrow> runTests registry tests ts2;
          let ts4 = emit LogFooter ts3;
          assert (assertInvariants registry ts4);
          Some ts4 }"

definition TestSuite_group :: "Test list \<Rightarrow> string list \<Rightarrow> TestSuite \<Rightarrow> TestSuite option" where
  "TestSuite_group registry testNames ts =
     do { assert (assertInvariants registry ts);
          assert (length testNames > 0);
          ts1 \<leftarrow> prepareForTesting registry ts;
          (tests, ts2) \<leftarrow> getTests registry testNames (emit LogHeader ts1);
          ts3 \<leftarrow> runTests registry tests ts2;
          let ts4 = emit LogFooter ts3;
          assert (assertInvariants registry ts4);
          Some ts4 }"

definition TestSuite_all :: "Test list \<Rightarrow> TestSuite \<Rightarrow> TestSuite option" where
  "TestSuite_all registry ts =
     do { assert (assertInvariants registry ts);
          ts1 \<leftarrow> prepareForTesting registry ts;
          ts3 \<leftarrow> runTests registry registry (emit LogHeader ts1);
          let ts4 = emit LogFooter ts3;
          assert (assertInvariants registry ts4);
          Some ts4 }"


section \<open>Properties of the line reader and of the block reader\<close>

text \<open>
  Streams are described by their lines: \<open>unlines ls\<close> is the text of the lines \<open>ls\<close>,
  each followed by its terminator; \<open>lineThen l rest\<close> is the line \<open>l\<close>, followed by its
  terminator and the text \<open>r\<close> when \<open>rest = Some r\<close> and by nothing at all when
  \<open>rest = None\<close> (the last line of a stream that does not end in a terminator);
  \<open>streamAfter s rest\<close> is the stream after that line has been read.  A line is
  \<open>blankOrComment\<close> when nothing or a comment is left of it after the leading white
  space.  \<open>trim\<close> is the usual meaning of "trimmed": white space cut at both ends.
\<close>

definition unlines :: "string list \<Rightarrow> string" where
  "unlines ls = concat (map (\<lambda>l. l @ [newline]) ls)"

lemma takeWhile_line: "newline \<notin> set l \<Longrightarrow> takeWhile (\<lambda>x. x \<noteq> newline) (l @ newline # rest) = l"
  by (induction l) auto

lemma takeWhile_whole: "newline \<notin> set l \<Longrightarrow> takeWhile (\<lambda>x. x \<noteq> newline) l = l"
  by (induction l) auto

lemma dropWhile_line: "newline \<notin> set l \<Longrightarrow> dropWhile (\<lambda>x. x \<noteq> newline) (l @ newline # rest) = newline # rest"
  by (induction l) auto

lemma readLine_line:
  assumes "good (dataStream td)" "newline \<notin> set l" "unread (dataStream td) = l @ newline # rest"
  shows "readLine td = (Some (cstr l),
           td\<lparr>dataStream := (dataStream td)\<lparr>unread := rest\<rparr>, lineCounter := lineCounter td + 1\<rparr>)"
  using assms by (simp add: readLine_eq Let_def takeWhile_line dropWhile_line)

lemma readLine_last:
  assumes "good (dataStream td)" "newline \<notin> set l" "l \<noteq> []" "unread (dataStream td) = l"
  shows "readLine td = (Some (cstr l),
           td\<lparr>dataStream := (dataStream td)\<lparr>unread := [], rdstate := Some (ending (dataStream td))\<rparr>,
              lineCounter := lineCounter td + 1\<rparr>)"
  using assms by (simp add: readLine_eq Let_def takeWhile_whole)


definition blankOrComment :: "string \<Rightarrow> bool" where
  "blankOrComment l = (startOfData (cstr l) = [] \<or> isComment (startOfData (cstr l)))"

definition lineThen :: "string \<Rightarrow> string option \<Rightarrow> string" where
  "lineThen l rest = (case rest of None \<Rightarrow> l | Some r \<Rightarrow> l @ newline # r)"

definition streamAfter :: "istream \<Rightarrow> string option \<Rightarrow> istream" where
  "streamAfter s rest =
     (case rest of None \<Rightarrow> s\<lparr>unread := [], rdstate := Some (ending s)\<rparr> | Some r \<Rightarrow> s\<lparr>unread := r\<rparr>)"

lemma readLine_lineThen:
  assumes "good (dataStream td)" "newline \<notin> set l" "l \<noteq> []"
    "unread (dataStream td) = lineThen l rest"
  shows "readLine td = (Some (cstr l),
           td\<lparr>dataStream := streamAfter (dataStream td) rest, lineCounter := lineCounter td + 1\<rparr>)"
  using assms readLine_line [of td l] readLine_last [of td l]
  by (cases rest) (simp_all add: lineThen_def streamAfter_def)

lemma blankOrComment_not_name: "blankOrComment l \<Longrightarrow> \<not> isTestName (startOfData (cstr l))"
  by (auto simp: blankOrComment_def isTestName_def isComment_def split: list.splits)

definition readTestCase_lines :: "TestData \<Rightarrow> string option \<times> TestData" where
  "readTestCase_lines td = (case readLine td of (line, td1) \<Rightarrow> readTestCase_loop line None td1)"

lemma readTestCase_lines:
  "readTestCase td = (if lastLineRead td \<noteq> None then None else Some (readTestCase_lines td))"
proof -
  obtain line td1 where rl: "readLine td = (line, td1)" by (cases "readLine td")
  then have "lastLineRead td1 = lastLineRead td"
    using readLine_lastLineRead [of td] by simp
  then show ?thesis using rl by (simp add: readTestCase_def readTestCase_lines_def)
qed

lemma readTestCase_lines_skip:
  assumes "good (dataStream td)" "lastLineRead td = None"
    "\<forall>l\<in>set skipped. newline \<notin> set l \<and> blankOrComment l"
    "unread (dataStream td) = unlines skipped @ tail"
  shows "readTestCase_lines td =
         readTestCase_lines (td\<lparr>dataStream := (dataStream td)\<lparr>unread := tail\<rparr>,
                                lineCounter := lineCounter td + of_nat (length skipped)\<rparr>)"
  using assms
proof (induction skipped arbitrary: td)
  case Nil
  then have "tail = unread (dataStream td)" by (simp add: unlines_def)
  then show ?case by simp
next
  case (Cons l ls)
  let ?td1 = "td\<lparr>dataStream := (dataStream td)\<lparr>unread := unlines ls @ tail\<rparr>,
                   lineCounter := lineCounter td + 1\<rparr>"
  have rl: "readLine td = (Some (cstr l), ?td1)"
    using Cons.prems by (intro readLine_line) (simp_all add: unlines_def)
  have b: "blankOrComment l" using Cons.prems by simp
  have k1: "lastLineRead ?td1 = None" using Cons.prems by simp
  have "readTestCase_lines td = readTestCase_lines ?td1"
    using rl b blankOrComment_not_name [OF b] Cons.prems(2)
    by (simp add: readTestCase_lines_def readTestCase_loop_Some [OF k1] blankOrComment_def)
  also have "\<dots> = readTestCase_lines (?td1\<lparr>dataStream := (dataStream ?td1)\<lparr>unread := tail\<rparr>,
                                lineCounter := lineCounter ?td1 + of_nat (length ls)\<rparr>)"
    using Cons.prems by (intro Cons.IH) (simp_all add: good_def)
  finally show ?case by (simp add: ac_simps)
qed

definition trim :: "string \<Rightarrow> string" where
  "trim s = rev (dropWhile isspace (rev (dropWhile isspace s)))"

text \<open>
  C7 (as stated, refuted): a read error is said to give none and never a partial
  line.  Here the device fails after it has delivered \<open>ab\<close>, before any line
  terminator: \<open>readLine\<close> returns the two characters as a line, and the stream is
  left in the error state.
\<close>

theorem readLine_read_error_counterexample:
  "fst (readLine \<lparr>dataStream = \<lparr>content = ''ab'', unread = ''ab'', ending = ReadError,
                                 rdstate = None\<rparr>, lineCounter = 0\<rparr>) = Some ''ab''
   \<and> rdstate (dataStream (snd (readLine
         \<lparr>dataStream = \<lparr>content = ''ab'', unread = ''ab'', ending = ReadError,
                         rdstate = None\<rparr>, lineCounter = 0\<rparr>))) = Some ReadError"
  by (simp add: readLine_eq Let_def good_def cstr_def newline_def NUL_def)

text \<open>
  C7 (amended): \<open>readLine\<close> treats a read error exactly like the end of the stream,
  its result does not depend on which of the two stops the delivery; it returns none
  exactly when the stream is not good or delivers no character at all; otherwise it
  returns the characters up to the first line terminator, the terminator stripped, or,
  when the stream ends or fails before a terminator, all the characters that were
  delivered (as a C string, so up to the first NUL).
\<close>

theorem readLine_failure_is_end:
  "fst (readLine (td\<lparr>dataStream := (dataStream td)\<lparr>ending := e\<rparr>\<rparr>)) = fst (readLine td) \<and>
   (fst (readLine td) = None) = (\<not> good (dataStream td) \<or> unread (dataStream td) = []) \<and>
   (good (dataStream td) \<and> unread (dataStream td) \<noteq> [] \<longrightarrow>
      fst (readLine td) = Some (cstr (takeWhile (\<lambda>c. c \<noteq> newline) (unread (dataStream td)))))"
  by (simp add: readLine_eq Let_def good_def)

theorem readLine_failure_is_end_witness:
  "good \<lparr>content = ''ab'', unread = ''ab'', ending = ReadError, rdstate = None\<rparr>
   \<and> fst (readLine \<lparr>dataStream = \<lparr>content = ''ab'', unread = ''ab'', ending = ReadError,
                                 rdstate = None\<rparr>, lineCounter = 0\<rparr>)
     = fst (readLine \<lparr>dataStream = \<lparr>content = ''ab'', unread = ''ab'', ending = EndOfStream,
                                 rdstate = None\<rparr>, lineCounter = 0\<rparr>)
   \<and> fst (readLine \<lparr>dataStream = \<lparr>content = ''ab'', unread = ''ab'', ending = ReadError,
                                 rdstate = None\<rparr>, lineCounter = 0\<rparr>) = Some ''ab''"
  using readLine_failure_is_end [where td = "\<lparr>dataStream = \<lparr>content = ''ab'', unread = ''ab'',
            ending = ReadError, rdstate = None\<rparr>, lineCounter = 0\<rparr>" and e = EndOfStream]
  by (simp add: good_def cstr_def newline_def NUL_def)

text \<open>
  C4: when the lines that \<open>readTestCase\<close> meets first are blank lines and comments
  (\<open>skipped\<close>) and the next line is a name marker, \<open>readTestCase\<close> returns none, the
  stream stands behind the marker line, and the marker line is kept in
  \<open>lastLineRead\<close>; the call of \<open>readTestName\<close> that follows returns the name of that
  line and reads nothing from the stream: the stream and the line counter stay as
  they are, only \<open>lastLineRead\<close> is emptied.
\<close>

theorem readTestCase_keeps_marker:
  assumes "good (dataStream td)" and "lastLineRead td = None"
    and "\<forall>l\<in>set skipped. newline \<notin> set l \<and> blankOrComment l"
    and "newline \<notin> set marker" and "isTestName (startOfData (cstr marker))"
    and "unread (dataStream td) = unlines skipped @ lineThen marker rest"
    and "td' = td\<lparr>dataStream := streamAfter (dataStream td) rest,
                   lineCounter := lineCounter td + of_nat (length skipped) + 1,
                   lastLineRead := Some (cstr marker)\<rparr>"
  shows "readTestCase td = Some (None, td') \<and>
         readTestName td' =
           (Some (extractTestName (startOfData (cstr marker))), td'\<lparr>lastLineRead := None\<rparr>)"
proof -
  let ?td0 = "td\<lparr>dataStream := (dataStream td)\<lparr>unread := lineThen marker rest\<rparr>,
                  lineCounter := lineCounter td + of_nat (length skipped)\<rparr>"
  have ne: "marker \<noteq> []"
    using assms(5) by (auto simp: isTestName_def startOfData_def cstr_def)
  have rl: "readLine ?td0 = (Some (cstr marker),
           ?td0\<lparr>dataStream := streamAfter (dataStream ?td0) rest, lineCounter := lineCounter ?td0 + 1\<rparr>)"
    using assms(1,4) ne by (intro readLine_lineThen) (simp_all add: good_def)
  have "readTestCase_lines td = readTestCase_lines ?td0"
    using assms by (intro readTestCase_lines_skip) simp_all
  also have "\<dots> = (None, td')"
    using rl assms(2,5,7)
    by (simp add: readTestCase_lines_def readTestCase_loop_Some streamAfter_def split: option.splits)
  finally have 1: "readTestCase td = Some (None, td')"
    using assms(2) by (simp add: readTestCase_lines)
  have 2: "readTestName td' =
           (Some (extractTestName (startOfData (cstr marker))), td'\<lparr>lastLineRead := None\<rparr>)"
    using assms(5,7) by (simp add: readTestName_def readTestName_loop_Some startOfData_def)
  from 1 2 show ?thesis by simp
qed

theorem readTestCase_keeps_marker_witness:
  "readTestCase
      \<lparr>dataStream = \<lparr>content = [], unread = '' '' @ [newline] @ ''//c'' @ [newline] @ '' :alpha '' @ [newline] @ ''2 3'',
                     ending = EndOfStream, rdstate = None\<rparr>,
       lineCounter = 4, lastLineRead = None\<rparr>
   = Some (None,
      \<lparr>dataStream = \<lparr>content = [], unread = ''2 3'', ending = EndOfStream, rdstate = None\<rparr>,
       lineCounter = 7, lastLineRead = Some '' :alpha ''\<rparr>)
   \<and> readTestName
      \<lparr>dataStream = \<lparr>content = [], unread = ''2 3'', ending = EndOfStream, rdstate = None\<rparr>,
       lineCounter = 7, lastLineRead = Some '' :alpha ''\<rparr>
   = (Some ''alpha'',
      \<lparr>dataStream = \<lparr>content = [], unread = ''2 3'', ending = EndOfStream, rdstate = None\<rparr>,
       lineCounter = 7, lastLineRead = None\<rparr>)"
  using readTestCase_keeps_marker [where td = "\<lparr>dataStream = \<lparr>content = [], unread = '' '' @ [newline] @ ''//c'' @ [newline] @ '' :alpha '' @ [newline] @ ''2 3'',
                     ending = EndOfStream, rdstate = None\<rparr>,
       lineCounter = 4, lastLineRead = None\<rparr>" and skipped = "['' '', ''//c'']" and marker = "'' :alpha ''" and rest = "Some ''2 3''", OF _ _ _ _ _ _ refl]
  by (simp add: good_def blankOrComment_def startOfData_def isComment_def isTestName_def isspace_def
        cstr_def newline_def NUL_def unlines_def lineThen_def streamAfter_def extractTestName_def)

text \<open>
  C9 (as stated, refuted): the test case text is said to be the trimmed content of
  the data line.  The line \<open>x\<close> followed by a space comes back with its trailing
  space, which trimming would cut.
\<close>

theorem readTestCase_trimmed_counterexample:
  "map_option fst (readTestCase
      \<lparr>dataStream = \<lparr>content = [CHR ''x'', CHR '' '', newline], unread = [CHR ''x'', CHR '' '', newline],
                     ending = EndOfStream, rdstate = None\<rparr>,
       lineCounter = 0, lastLineRead = None\<rparr>) = Some (Some ''x '')
   \<and> trim ''x '' = ''x''"
  by (simp add: readTestCase_def readLine_eq Let_def good_def readTestCase_loop_Some startOfData_def
        isTestName_def isComment_def isspace_def cstr_def newline_def NUL_def trim_def)

lemma readTestCase_data_line:
  assumes "good (dataStream td)" and "lastLineRead td = None"
    and "\<forall>l\<in>set skipped. newline \<notin> set l \<and> blankOrComment l"
    and "newline \<notin> set dataLine"
    and "startOfData (cstr dataLine) \<noteq> []"
    and "\<not> isComment (startOfData (cstr dataLine))"
    and "\<not> isTestName (startOfData (cstr dataLine))"
    and "unread (dataStream td) = unlines skipped @ lineThen dataLine rest"
  shows "readTestCase td =
           Some (Some (dropWhile isspace (cstr dataLine)),
                 td\<lparr>dataStream := streamAfter (dataStream td) rest,
                    lineCounter := lineCounter td + of_nat (length skipped) + 1\<rparr>)"
proof -
  let ?td0 = "td\<lparr>dataStream := (dataStream td)\<lparr>unread := lineThen dataLine rest\<rparr>,
                  lineCounter := lineCounter td + of_nat (length skipped)\<rparr>"
  have ne: "dataLine \<noteq> []"
    using assms(5) by (auto simp: startOfData_def cstr_def)
  have rl: "readLine ?td0 = (Some (cstr dataLine),
           ?td0\<lparr>dataStream := streamAfter (dataStream ?td0) rest, lineCounter := lineCounter ?td0 + 1\<rparr>)"
    using assms(1,4) ne by (intro readLine_lineThen) (simp_all add: good_def)
  have "readTestCase_lines td = readTestCase_lines ?td0"
    using assms by (intro readTestCase_lines_skip) simp_all
  also have "\<dots> = (Some (dropWhile isspace (cstr dataLine)),
                 td\<lparr>dataStream := streamAfter (dataStream td) rest,
                    lineCounter := lineCounter td + of_nat (length skipped) + 1\<rparr>)"
    using rl assms(2,5,6,7)
    by (auto simp: readTestCase_lines_def readTestCase_loop_Some streamAfter_def startOfData_def
             split: option.splits)
  finally show ?thesis
    using assms(2) by (simp add: readTestCase_lines)
qed

text \<open>
  C9 (amended): for a data line, a line of which something is left after the leading
  white space that starts neither with \<open>//\<close> nor with a colon, \<open>readTestCase\<close> returns
  the line without its leading white space; white space at the end of the line is
  kept.  Blank lines and comments before the data line are skipped.
\<close>

theorem readTestCase_left_trimmed:
  assumes "good (dataStream td)" and "lastLineRead td = None"
    and "\<forall>l\<in>set skipped. newline \<notin> set l \<and> blankOrComment l"
    and "newline \<notin> set dataLine"
    and "startOfData (cstr dataLine) \<noteq> []"
    and "\<not> isComment (startOfData (cstr dataLine))"
    and "\<not> isTestName (startOfData (cstr dataLine))"
    and "unread (dataStream td) = unlines skipped @ lineThen dataLine rest"
  shows "readTestCase td =
           Some (Some (dropWhile isspace (cstr dataLine)),
                 td\<lparr>dataStream := streamAfter (dataStream td) rest,
                    lineCounter := lineCounter td + of_nat (length skipped) + 1\<rparr>)"
  using assms by (rule readTestCase_data_line)

theorem readTestCase_left_trimmed_witness:
  "readTestCase
      \<lparr>dataStream = \<lparr>content = [], unread = '' '' @ [newline] @ ''//c'' @ [newline] @ ''  1 1 '' @ [newline] @ ''2 3'',
                     ending = EndOfStream, rdstate = None\<rparr>,
       lineCounter = 4, lastLineRead = None\<rparr>
   = Some (Some ''1 1 '',
      \<lparr>dataStream = \<lparr>content = [], unread = ''2 3'', ending = EndOfStream, rdstate = None\<rparr>,
       lineCounter = 7, lastLineRead = None\<rparr>)"
  using readTestCase_left_trimmed [where td = "\<lparr>dataStream = \<lparr>content = [], unread = '' '' @ [newline] @ ''//c'' @ [newline] @ ''  1 1 '' @ [newline] @ ''2 3'',
                     ending = EndOfStream, rdstate = None\<rparr>,
       lineCounter = 4, lastLineRead = None\<rparr>" and skipped = "['' '', ''//c'']" and dataLine = "''  1 1 ''" and rest = "Some ''2 3''"]
  by (simp add: good_def blankOrComment_def startOfData_def isComment_def isTestName_def isspace_def
        cstr_def newline_def NUL_def unlines_def lineThen_def streamAfter_def)

section \<open>The events of a run\<close>

definition isUser :: "event \<Rightarrow> bool" where
  "isUser e = (case e of UserReadLine _ \<Rightarrow> True | UserLog _ \<Rightarrow> True | _ \<Rightarrow> False)"

definition isTestMethod :: "event \<Rightarrow> bool" where
  "isTestMethod e = (case e of TestMethod _ _ _ \<Rightarrow> True | _ \<Rightarrow> False)"

definition isFailure :: "event \<Rightarrow> bool" where
  "isFailure e = (case e of TestMethod _ _ r \<Rightarrow> r = fail \<or> r = abortThisTest \<or> r = abortAllTests
                    | _ \<Rightarrow> False)"

definition newEvents :: "TestSuite \<Rightarrow> TestSuite \<Rightarrow> event list" where
  "newEvents ts ts' = drop (length (trace ts)) (trace ts')"

lemma runAction_trace:
  "runAction a ts = (r, ts') \<Longrightarrow> \<exists>ub. trace ts' = trace ts @ ub \<and> list_all isUser ub"
proof (induction a arbitrary: ts)
  case (Return x)
  then show ?case by simp
next
  case (ReadLine k)
  obtain l td where rl: "readLine (testData ts) = (l, td)"
    by (cases "readLine (testData ts)")
  have "runAction (k l) (emit (UserReadLine l) (ts\<lparr>testData := td\<rparr>)) = (r, ts')"
    using ReadLine.prems rl by simp
  from ReadLine.IH [OF rangeI this]
  obtain ub where "trace ts' = trace ts @ UserReadLine l # ub" "list_all isUser ub"
    by (auto simp: emit_def)
  then have "trace ts' = trace ts @ (UserReadLine l # ub) \<and> list_all isUser (UserReadLine l # ub)"
    by (simp add: isUser_def)
  then show ?case by blast
next
  case (LineCounter k)
  have "runAction (k (lineCounter (testData ts))) ts = (r, ts')"
    using LineCounter.prems by simp
  from LineCounter.IH [OF rangeI this]
  show ?case .
next
  case (Log msg a)
  have "runAction a (emit (UserLog msg) ts) = (r, ts')"
    using Log.prems by simp
  from Log.IH [OF this]
  obtain ub where "trace ts' = trace ts @ UserLog msg # ub" "list_all isUser ub"
    by (auto simp: emit_def)
  then have "trace ts' = trace ts @ (UserLog msg # ub) \<and> list_all isUser (UserLog msg # ub)"
    by (simp add: isUser_def)
  then show ?case by blast
qed

lemma runTest_bodyE:
  assumes "runTest_body test v ts = Some (v1, ts1)"
  obtains ub r d where
    "list_all isUser ub"
    "trace ts1 = trace ts @ ub @
        TestMethod (name test)
          (TestCase (testCaseNum v + 1) (ucast (lineCounter (testData ts))) (the (testCaseData v))) r #
        verdictEvents (name test)
          (TestCase (testCaseNum v + 1) (ucast (lineCounter (testData ts))) (the (testCaseData v))) r @
        [ReadTestCase d]"
    "v1 = v\<lparr>testCaseNum := testCaseNum v + 1,
           abortTest := (abortTest v \<or> r = abortThisTest \<or> r = abortAllTests),
           abortAll := (abortAll v \<or> r = abortAllTests),
           numFailedTestCases := numFailedTestCases v + (if r = pass then 0 else 1),
           testCaseData := d\<rparr>"
    "remaining (testData ts1) + (if d \<noteq> None then 1 else 0) \<le> remaining (testData ts)"
    "d \<noteq> None \<longrightarrow> lastLineRead (testData ts1) = None"
    "lastLineRead (testData ts) = None"
    "totalTestCases ts1 = totalTestCases ts"
    "totalFailedTestCases ts1 = totalFailedTestCases ts"
proof -
  let ?tc = "TestCase (testCaseNum v + 1) (ucast (lineCounter (testData ts))) (the (testCaseData v))"
  obtain r ts0 where ra: "runAction (testMethod test (trace ts) ?tc) ts = (r, ts0)"
    by (cases "runAction (testMethod test (trace ts) ?tc) ts")
  obtain d td where rc: "readTestCase (testData ts0) = Some (d, td)"
    using assms ra by (cases "readTestCase (testData ts0)") (auto simp: runTest_body_eq Let_def)
  from runAction_trace [OF ra] obtain ub where ub: "trace ts0 = trace ts @ ub" "list_all isUser ub"
    by blast
  have v1: "v1 = v\<lparr>testCaseNum := testCaseNum v + 1,
           abortTest := (abortTest v \<or> r = abortThisTest \<or> r = abortAllTests),
           abortAll := (abortAll v \<or> r = abortAllTests),
           numFailedTestCases := numFailedTestCases v + (if r = pass then 0 else 1),
           testCaseData := d\<rparr>"
    and ts1: "ts1 = ts0\<lparr>testData := td,
                         trace := trace ts0 @ TestMethod (name test) ?tc r #
                                  verdictEvents (name test) ?tc r @ [ReadTestCase d]\<rparr>"
    using assms ra rc by (simp_all add: runTest_body_eq Let_def)
  note a = runAction_bounds [OF ra]
  note b = readTestCase_bounds [OF rc]
  have td1: "testData ts1 = td" and tot: "totalTestCases ts1 = totalTestCases ts0"
    "totalFailedTestCases ts1 = totalFailedTestCases ts0"
    using ts1 by simp_all
  show thesis
  proof (rule that [of ub r d])
    show "list_all isUser ub" by (rule ub(2))
    show "trace ts1 = trace ts @ ub @ TestMethod (name test) ?tc r #
        verdictEvents (name test) ?tc r @ [ReadTestCase d]"
      using ts1 ub(1) by simp
    show "v1 = v\<lparr>testCaseNum := testCaseNum v + 1,
           abortTest := (abortTest v \<or> r = abortThisTest \<or> r = abortAllTests),
           abortAll := (abortAll v \<or> r = abortAllTests),
           numFailedTestCases := numFailedTestCases v + (if r = pass then 0 else 1),
           testCaseData := d\<rparr>"
      by (rule v1)
    show "remaining (testData ts1) + (if d \<noteq> None then 1 else 0) \<le> remaining (testData ts)"
      using a b td1 by auto
    show "d \<noteq> None \<longrightarrow> lastLineRead (testData ts1) = None"
      using b td1 by simp
    show "lastLineRead (testData ts) = None"
      using a b by simp
    show "totalTestCases ts1 = totalTestCases ts" "totalFailedTestCases ts1 = totalFailedTestCases ts"
      using a tot by simp_all
  qed
qed

lemma runTest_loop_induct [consumes 1, case_names stop step]:
  "runTest_loop test v ts = Some (v', ts') \<Longrightarrow>
   (\<And>v ts. abortTest v \<or> testCaseData v = None \<Longrightarrow> P v ts v ts) \<Longrightarrow>
   (\<And>v ts v1 ts1 v' ts'.
           \<not> abortTest v \<Longrightarrow> testCaseData v \<noteq> None \<Longrightarrow>
           runTest_body test v ts = Some (v1, ts1) \<Longrightarrow>
           runTest_loop test v1 ts1 = Some (v', ts') \<Longrightarrow>
           P v1 ts1 v' ts' \<Longrightarrow> P v ts v' ts') \<Longrightarrow>
   P v ts v' ts'"
proof (induction test v ts rule: runTest_loop.induct)
  case (1 test v ts)
  show ?case
  proof (cases "\<not> abortTest v \<and> testCaseData v \<noteq> None")
    case False
    then have "v' = v" "ts' = ts" using "1.prems"(1) by auto
    then show ?thesis using "1.prems"(2) [of v ts] False by simp
  next
    case True
    then obtain v1 ts1 where b: "runTest_body test v ts = Some (v1, ts1)"
      and l: "runTest_loop test v1 ts1 = Some (v', ts')"
      using "1.prems"(1) by (auto simp: runTest_loop_step split: option.splits)
    have p: "P v1 ts1 v' ts'"
      by (rule "1.IH" [OF True b refl l "1.prems"(2) "1.prems"(3)])
    from True have c: "\<not> abortTest v" "testCaseData v \<noteq> None" by simp_all
    show ?thesis by (rule "1.prems"(3) [OF c b l p])
  qed
qed


definition isAbort :: "event \<Rightarrow> bool" where
  "isAbort e = (case e of TestMethod _ _ r \<Rightarrow> r = abortThisTest \<or> r = abortAllTests | _ \<Rightarrow> False)"

definition inBlock :: "event \<Rightarrow> bool" where
  "inBlock e = (case e of
       ReadTestCase _ \<Rightarrow> True | TestMethod _ _ _ \<Rightarrow> True | UserReadLine _ \<Rightarrow> True
     | UserLog _ \<Rightarrow> True | LogTestCasePassed _ _ \<Rightarrow> True | LogTestCaseFailed _ _ \<Rightarrow> True
     | LogTestAborted _ \<Rightarrow> True | LogAllTestsAborted \<Rightarrow> True | _ \<Rightarrow> False)"

definition abortNotice :: "string \<Rightarrow> TestResult \<Rightarrow> event" where
  "abortNotice nm r = (if r = abortAllTests then LogAllTestsAborted else LogTestAborted nm)"

lemma isUser_simps [simp]:
  "isUser e \<Longrightarrow> \<not> isTestMethod e" "isUser e \<Longrightarrow> \<not> isFailure e"
  "isUser e \<Longrightarrow> \<not> isAbort e" "isUser e \<Longrightarrow> inBlock e"
  by (cases e; simp add: isUser_def isTestMethod_def isFailure_def isAbort_def inBlock_def)+

lemma filter_user [simp]:
  "list_all isUser ub \<Longrightarrow> filter isTestMethod ub = []"
  "list_all isUser ub \<Longrightarrow> filter isFailure ub = []"
  "list_all isUser ub \<Longrightarrow> filter isAbort ub = []"
  "list_all isUser ub \<Longrightarrow> list_all inBlock ub"
  by (induction ub) auto

lemma verdictEvents_simps [simp]:
  "filter isTestMethod (verdictEvents nm tc r) = []"
  "filter isFailure (verdictEvents nm tc r) = []"
  "filter isAbort (verdictEvents nm tc r) = []"
  "list_all inBlock (verdictEvents nm tc r)"
  by (simp_all add: verdictEvents_def isTestMethod_def isFailure_def isAbort_def inBlock_def)

lemma event_simps [simp]:
  "isTestMethod (TestMethod nm tc r)" "\<not> isTestMethod (ReadTestCase d)"
  "isFailure (TestMethod nm tc r) = (r \<noteq> pass)" "\<not> isFailure (ReadTestCase d)"
  "isAbort (TestMethod nm tc r) = (r = abortThisTest \<or> r = abortAllTests)"
  "\<not> isAbort (ReadTestCase d)"
  "inBlock (TestMethod nm tc r)" "inBlock (ReadTestCase d)"
  by (cases r; simp add: isTestMethod_def isFailure_def isAbort_def inBlock_def)+

lemma newEvents_eq: "trace ts' = trace ts @ a \<Longrightarrow> newEvents ts ts' = a"
  by (simp add: newEvents_def)

lemma newEvents_trace: "trace ts' = trace ts @ a \<Longrightarrow> trace ts' = trace ts @ newEvents ts ts'"
  by (simp add: newEvents_def)

lemma newEvents_append:
  assumes "trace ts1 = trace ts @ a" and "trace ts' = trace ts1 @ newEvents ts1 ts'"
  shows "newEvents ts ts' = a @ newEvents ts1 ts'"
proof -
  have "trace ts' = trace ts @ (a @ newEvents ts1 ts')"
    using assms by simp
  then show ?thesis by (rule newEvents_eq)
qed

lemma runTest_loop_trace:
  "runTest_loop test v ts = Some (v', ts') \<Longrightarrow> trace ts' = trace ts @ newEvents ts ts'"
proof (induction rule: runTest_loop_induct)
  case (stop v ts)
  then show ?case by (simp add: newEvents_def)
next
  case (step v ts v1 ts1 v' ts')
  from step(3) obtain seg where "trace ts1 = trace ts @ seg"
    by (rule runTest_bodyE) blast
  with step(5) have "trace ts' = trace ts @ (seg @ newEvents ts1 ts')" by simp
  then show ?case by (rule newEvents_trace)
qed

text \<open>The events of one pass through the body.\<close>

definition caseEvents :: "string \<Rightarrow> event list \<Rightarrow> TestCase \<Rightarrow> TestResult \<Rightarrow> string option \<Rightarrow> event list" where
  "caseEvents nm ub tc r d = ub @ TestMethod nm tc r # verdictEvents nm tc r @ [ReadTestCase d]"

lemma runTest_loop_stepE:
  assumes "runTest_body test v ts = Some (v1, ts1)"
    and "runTest_loop test v1 ts1 = Some (v', ts')"
  obtains ub r d where
    "list_all isUser ub"
    "newEvents ts ts' =
       caseEvents (name test) ub
         (TestCase (testCaseNum v + 1) (ucast (lineCounter (testData ts))) (the (testCaseData v))) r d
       @ newEvents ts1 ts'"
    "v1 = v\<lparr>testCaseNum := testCaseNum v + 1,
           abortTest := (abortTest v \<or> r = abortThisTest \<or> r = abortAllTests),
           abortAll := (abortAll v \<or> r = abortAllTests),
           numFailedTestCases := numFailedTestCases v + (if r = pass then 0 else 1),
           testCaseData := d\<rparr>"
    "remaining (testData ts1) + (if d \<noteq> None then 1 else 0) \<le> remaining (testData ts)"
    "d \<noteq> None \<longrightarrow> lastLineRead (testData ts1) = None"
    "lastLineRead (testData ts) = None"
    "totalTestCases ts1 = totalTestCases ts"
    "totalFailedTestCases ts1 = totalFailedTestCases ts"
proof -
  from assms(1) obtain ub r d where f:
    "list_all isUser ub"
    "trace ts1 = trace ts @ ub @
        TestMethod (name test)
          (TestCase (testCaseNum v + 1) (ucast (lineCounter (testData ts))) (the (testCaseData v))) r #
        verdictEvents (name test)
          (TestCase (testCaseNum v + 1) (ucast (lineCounter (testData ts))) (the (testCaseData v))) r @
        [ReadTestCase d]"
    "v1 = v\<lparr>testCaseNum := testCaseNum v + 1,
           abortTest := (abortTest v \<or> r = abortThisTest \<or> r = abortAllTests),
           abortAll := (abortAll v \<or> r = abortAllTests),
           numFailedTestCases := numFailedTestCases v + (if r = pass then 0 else 1),
           testCaseData := d\<rparr>"
    "remaining (testData ts1) + (if d \<noteq> None then 1 else 0) \<le> remaining (testData ts)"
    "d \<noteq> None \<longrightarrow> lastLineRead (testData ts1) = None"
    "lastLineRead (testData ts) = None"
    "totalTestCases ts1 = totalTestCases ts"
    "totalFailedTestCases ts1 = totalFailedTestCases ts"
    by (rule runTest_bodyE)
  have "trace ts' = trace ts1 @ newEvents ts1 ts'"
    using assms(2) by (rule runTest_loop_trace)
  with f(2) have ne: "newEvents ts ts' =
       caseEvents (name test) ub
         (TestCase (testCaseNum v + 1) (ucast (lineCounter (testData ts))) (the (testCaseData v))) r d
       @ newEvents ts1 ts'"
    unfolding caseEvents_def by (intro newEvents_append) simp_all
  show thesis by (rule that [OF f(1) ne f(3-8)])
qed

lemma caseEvents_simps [simp]:
  "list_all isUser ub \<Longrightarrow> filter isTestMethod (caseEvents nm ub tc r d) = [TestMethod nm tc r]"
  "list_all isUser ub \<Longrightarrow> filter isFailure (caseEvents nm ub tc r d) = (if r = pass then [] else [TestMethod nm tc r])"
  "list_all isUser ub \<Longrightarrow> list_all inBlock (caseEvents nm ub tc r d)"
  by (simp_all add: caseEvents_def)

lemma runTest_loop_counts:
  "runTest_loop test v ts = Some (v', ts') \<Longrightarrow>
     testCaseNum v' = testCaseNum v + of_nat (length (filter isTestMethod (newEvents ts ts'))) \<and>
     numFailedTestCases v' =
       numFailedTestCases v + of_nat (length (filter isFailure (newEvents ts ts'))) \<and>
     totalTestCases ts' = totalTestCases ts \<and>
     totalFailedTestCases ts' = totalFailedTestCases ts \<and>
     list_all inBlock (newEvents ts ts') \<and>
     length (filter isTestMethod (newEvents ts ts')) + remaining (testData ts')
        + (if testCaseData v' \<noteq> None then 1 else 0)
       \<le> remaining (testData ts) + (if testCaseData v \<noteq> None then 1 else 0)"
proof (induction rule: runTest_loop_induct)
  case (stop v ts)
  then show ?case by (simp add: newEvents_def)
next
  case (step v ts v1 ts1 v' ts')
  from step(3,4) obtain ub r d where f:
    "list_all isUser ub"
    "newEvents ts ts' =
       caseEvents (name test) ub
         (TestCase (testCaseNum v + 1) (ucast (lineCounter (testData ts))) (the (testCaseData v))) r d
       @ newEvents ts1 ts'"
    "v1 = v\<lparr>testCaseNum := testCaseNum v + 1,
           abortTest := (abortTest v \<or> r = abortThisTest \<or> r = abortAllTests),
           abortAll := (abortAll v \<or> r = abortAllTests),
           numFailedTestCases := numFailedTestCases v + (if r = pass then 0 else 1),
           testCaseData := d\<rparr>"
    "remaining (testData ts1) + (if d \<noteq> None then 1 else 0) \<le> remaining (testData ts)"
    "totalTestCases ts1 = totalTestCases ts"
    "totalFailedTestCases ts1 = totalFailedTestCases ts"
    by (rule runTest_loop_stepE)
  have v1: "testCaseNum v1 = testCaseNum v + 1"
    "numFailedTestCases v1 = numFailedTestCases v + (if r = pass then 0 else 1)"
    "testCaseData v1 = d"
    using f(3) by simp_all
  show ?case
    using step(5) step(2) f(1,4,5,6) v1
    by (simp add: f(2))
qed

lemma newEvents_self [simp]: "newEvents ts ts = []"
  by (simp add: newEvents_def)

lemma caseEvents_abort [simp]:
  "list_all isUser ub \<Longrightarrow> list_ex isAbort (caseEvents nm ub tc r d) = (r = abortThisTest \<or> r = abortAllTests)"
  by (cases r) (auto simp: caseEvents_def verdictEvents_def list_ex_iff list_all_iff isAbort_def isUser_def
        split: event.splits)

lemma runTest_loop_aborts:
  "runTest_loop test v ts = Some (v', ts') \<Longrightarrow>
     (\<not> list_ex isAbort (newEvents ts ts') \<and> abortAll v' = abortAll v \<and> abortTest v' = abortTest v) \<or>
     (\<exists>pre ub tc res r.
         newEvents ts ts' = pre @ caseEvents (name test) ub tc res r \<and> list_all isUser ub \<and>
         \<not> list_ex isAbort pre \<and> (res = abortThisTest \<or> res = abortAllTests) \<and>
         abortTest v' \<and> abortAll v' = (abortAll v \<or> res = abortAllTests))"
proof (induction rule: runTest_loop_induct)
  case (stop v ts)
  then show ?case by simp
next
  case (step v ts v1 ts1 v' ts')
  from step(3,4) obtain ub r d where f:
    "list_all isUser ub"
    "newEvents ts ts' =
       caseEvents (name test) ub
         (TestCase (testCaseNum v + 1) (ucast (lineCounter (testData ts))) (the (testCaseData v))) r d
       @ newEvents ts1 ts'"
    "v1 = v\<lparr>testCaseNum := testCaseNum v + 1,
           abortTest := (abortTest v \<or> r = abortThisTest \<or> r = abortAllTests),
           abortAll := (abortAll v \<or> r = abortAllTests),
           numFailedTestCases := numFailedTestCases v + (if r = pass then 0 else 1),
           testCaseData := d\<rparr>"
    by (rule runTest_loop_stepE)
  let ?tc = "TestCase (testCaseNum v + 1) (ucast (lineCounter (testData ts))) (the (testCaseData v))"
  have v1: "abortTest v1 = (r = abortThisTest \<or> r = abortAllTests)"
    "abortAll v1 = (abortAll v \<or> r = abortAllTests)"
    using f(3) step(1) by simp_all
  show ?case
  proof (cases "r = abortThisTest \<or> r = abortAllTests")
    case True
    then have "abortTest v1" using v1 by simp
    then have "v' = v1" "ts' = ts1" using step(4) by simp_all
    then have e: "newEvents ts ts' = [] @ caseEvents (name test) ub ?tc r d"
      "abortTest v'" "abortAll v' = (abortAll v \<or> r = abortAllTests)"
      using f(2) v1 True by simp_all
    show ?thesis
      by (rule disjI2, rule exI [of _ "[]"], rule exI [of _ ub], rule exI [of _ ?tc],
          rule exI [of _ r], rule exI [of _ d])
         (use e f(1) True in simp)
  next
    case False
    then have na: "\<not> list_ex isAbort (caseEvents (name test) ub ?tc r d)"
      using f(1) by simp
    have a1: "abortAll v1 = abortAll v" "abortTest v1 = abortTest v"
      using v1 False step(1) by auto
    from step(5) show ?thesis
    proof (rule disjE)
      assume "\<not> list_ex isAbort (newEvents ts1 ts') \<and> abortAll v' = abortAll v1 \<and>
        abortTest v' = abortTest v1"
      then show ?thesis using na a1 f(2) by simp
    next
      assume "\<exists>pre ub tc res r.
         newEvents ts1 ts' = pre @ caseEvents (name test) ub tc res r \<and> list_all isUser ub \<and>
         \<not> list_ex isAbort pre \<and> (res = abortThisTest \<or> res = abortAllTests) \<and>
         abortTest v' \<and> abortAll v' = (abortAll v1 \<or> res = abortAllTests)"
      then obtain pre ub' tc res r' where
        h: "newEvents ts1 ts' = pre @ caseEvents (name test) ub' tc res r'"
        "list_all isUser ub'" "\<not> list_ex isAbort pre" "res = abortThisTest \<or> res = abortAllTests"
        "abortTest v'" "abortAll v' = (abortAll v1 \<or> res = abortAllTests)"
        by blast
      have e: "newEvents ts ts' = (caseEvents (name test) ub ?tc r d @ pre) @ caseEvents (name test) ub' tc res r'"
        using f(2) h(1) by simp
      have n: "\<not> list_ex isAbort (caseEvents (name test) ub ?tc r d @ pre)"
        using na h(3) by simp
      show ?thesis
        by (rule disjI2, rule exI [of _ "caseEvents (name test) ub ?tc r d @ pre"],
            rule exI [of _ ub'], rule exI [of _ tc], rule exI [of _ res], rule exI [of _ r'])
           (use e n h(2,4,5,6) a1 in simp)
    qed
  qed
qed

lemma runTest_loop_head:
  assumes "runTest_loop test v ts = Some (v', ts')"
  shows "(abortTest v \<or> testCaseData v = None \<longrightarrow> newEvents ts ts' = []) \<and>
         (\<not> abortTest v \<longrightarrow> (\<forall>caseText. testCaseData v = Some caseText \<longrightarrow>
            (\<exists>ub lc res rest. newEvents ts ts' =
                 ub @ TestMethod (name test) (TestCase (testCaseNum v + 1) lc caseText) res # rest \<and>
                 list_all isUser ub)))"
proof (cases "abortTest v \<or> testCaseData v = None")
  case True
  then have "ts' = ts" using assms by simp
  then show ?thesis using True by auto
next
  case False
  then obtain caseText where t: "\<not> abortTest v" and t2: "testCaseData v = Some caseText" by auto
  then obtain v1 ts1 where b: "runTest_body test v ts = Some (v1, ts1)"
    and l: "runTest_loop test v1 ts1 = Some (v', ts')"
    using assms t by (auto simp: runTest_loop_step split: option.splits)
  from b l obtain ub r d where f:
    "list_all isUser ub"
    "newEvents ts ts' =
       caseEvents (name test) ub
         (TestCase (testCaseNum v + 1) (ucast (lineCounter (testData ts))) (the (testCaseData v))) r d
       @ newEvents ts1 ts'"
    by (rule runTest_loop_stepE)
  have "newEvents ts ts' = ub @ TestMethod (name test)
          (TestCase (testCaseNum v + 1) (ucast (lineCounter (testData ts))) caseText) r #
          (verdictEvents (name test)
            (TestCase (testCaseNum v + 1) (ucast (lineCounter (testData ts))) caseText) r @
           [ReadTestCase d] @ newEvents ts1 ts')"
    using f(2) t2 by (simp add: caseEvents_def)
  with f(1) have "\<exists>ub lc res rest. newEvents ts ts' =
                 ub @ TestMethod (name test) (TestCase (testCaseNum v + 1) lc caseText) res # rest \<and>
                 list_all isUser ub"
    by blast
  then show ?thesis using t t2 by simp
qed


text \<open>One block: what a call of \<open>runTest\<close> adds to the events and to the counters.\<close>

lemma runTest_blockE:
  assumes "runTest registry test ts = Some (goOn, ts')"
  obtains d body where
    "trace ts' = trace ts @ ReadTestCase d # LogTestHeader (name test) # body @
       [LogTestFooter (name test) (of_nat (length (filter isTestMethod body)))
          (of_nat (length (filter isFailure body)))]"
    "totalTestCases ts' = totalTestCases ts + of_nat (length (filter isTestMethod body))"
    "totalFailedTestCases ts' = totalFailedTestCases ts + of_nat (length (filter isFailure body))"
    "list_all inBlock body"
    "length (filter isTestMethod body) + remaining (testData ts') \<le> remaining (testData ts)"
    "(goOn \<and> \<not> list_ex isAbort body) \<or>
     (\<exists>pre ub tc res r.
         body = pre @ caseEvents (name test) ub tc res r \<and> list_all isUser ub \<and>
         \<not> list_ex isAbort pre \<and> (res = abortThisTest \<or> res = abortAllTests) \<and>
         goOn = (res = abortThisTest))"
    "d = None \<longrightarrow> body = []"
    "\<forall>caseText. d = Some caseText \<longrightarrow>
       (\<exists>ub lc res rest. body = ub @ TestMethod (name test) (TestCase 1 lc caseText) res # rest \<and>
          list_all isUser ub)"
    "lastLineRead (testData ts) = None"
    "assertInvariants registry ts"
    "(of_nat (length (filter isFailure body)) :: uint) \<le> of_nat (length (filter isTestMethod body))"
proof -
  let ?v0 = "\<lparr>testCaseNum = 0, abortTest = False, abortAll = False,
        numFailedTestCases = 0, testCaseData = d\<rparr>"
  from assms obtain d td v ts2 where r:
    "assertInvariants registry ts"
    "readTestCase (testData ts) = Some (d, td)"
    "runTest_loop test
       \<lparr>testCaseNum = 0, abortTest = False, abortAll = False,
        numFailedTestCases = 0, testCaseData = d\<rparr>
       (ts\<lparr>testData := td, trace := trace ts @ [ReadTestCase d, LogTestHeader (name test)]\<rparr>)
     = Some (v, ts2)"
    "numFailedTestCases v \<le> testCaseNum v"
    "goOn = (\<not> abortAll v)"
    "ts' = ts2\<lparr>trace := trace ts2 @ [LogTestFooter (name test) (testCaseNum v) (numFailedTestCases v)],
              totalTestCases := totalTestCases ts2 + testCaseNum v,
              totalFailedTestCases := totalFailedTestCases ts2 + numFailedTestCases v\<rparr>"
    by (rule runTest_SomeE)
  define ts1 where "ts1 = ts\<lparr>testData := td, trace := trace ts @ [ReadTestCase d, LogTestHeader (name test)]\<rparr>"
  define v0 where "v0 = \<lparr>testCaseNum = 0, abortTest = False, abortAll = False,
        numFailedTestCases = 0, testCaseData = d\<rparr>"
  define body where "body = newEvents ts1 ts2"
  have l: "runTest_loop test v0 ts1 = Some (v, ts2)"
    using r(3) by (simp add: ts1_def v0_def)
  have v0: "testCaseNum v0 = 0" "abortTest v0 = False" "abortAll v0 = False"
    "numFailedTestCases v0 = 0" "testCaseData v0 = d"
    by (simp_all add: v0_def)
  have s1: "trace ts1 = trace ts @ [ReadTestCase d, LogTestHeader (name test)]"
    "testData ts1 = td" "totalTestCases ts1 = totalTestCases ts"
    "totalFailedTestCases ts1 = totalFailedTestCases ts"
    by (simp_all add: ts1_def)
  have t2: "trace ts2 = trace ts1 @ body"
    unfolding body_def using l by (rule runTest_loop_trace)
  note c = runTest_loop_counts [OF l, folded body_def, unfolded v0 s1]
  have n: "testCaseNum v = of_nat (length (filter isTestMethod body))"
    "numFailedTestCases v = of_nat (length (filter isFailure body))"
    using c by simp_all
  note b = readTestCase_bounds [OF r(2)]
  have s': "trace ts' = trace ts2 @ [LogTestFooter (name test) (testCaseNum v) (numFailedTestCases v)]"
    "totalTestCases ts' = totalTestCases ts2 + testCaseNum v"
    "totalFailedTestCases ts' = totalFailedTestCases ts2 + numFailedTestCases v"
    "testData ts' = testData ts2"
    using r(6) by simp_all
  show thesis
  proof (rule that [of d body])
    show "trace ts' = trace ts @ ReadTestCase d # LogTestHeader (name test) # body @
       [LogTestFooter (name test) (of_nat (length (filter isTestMethod body)))
          (of_nat (length (filter isFailure body)))]"
      using s'(1) t2 s1(1) n by simp
    show "totalTestCases ts' = totalTestCases ts + of_nat (length (filter isTestMethod body))"
      using s'(2) c n by simp
    show "totalFailedTestCases ts' = totalFailedTestCases ts + of_nat (length (filter isFailure body))"
      using s'(3) c n by simp
    show "list_all inBlock body" using c by simp
    show "length (filter isTestMethod body) + remaining (testData ts') \<le> remaining (testData ts)"
      using c b s'(4) by (auto split: if_splits)
    show "(goOn \<and> \<not> list_ex isAbort body) \<or>
     (\<exists>pre ub tc res r.
         body = pre @ caseEvents (name test) ub tc res r \<and> list_all isUser ub \<and>
         \<not> list_ex isAbort pre \<and> (res = abortThisTest \<or> res = abortAllTests) \<and>
         goOn = (res = abortThisTest))"
      using runTest_loop_aborts [OF l, folded body_def, unfolded v0] r(5) by fastforce
    show "d = None \<longrightarrow> body = []"
      using runTest_loop_head [OF l, folded body_def, unfolded v0] by simp
    show "\<forall>caseText. d = Some caseText \<longrightarrow>
       (\<exists>ub lc res rest. body = ub @ TestMethod (name test) (TestCase 1 lc caseText) res # rest \<and>
          list_all isUser ub)"
      using runTest_loop_head [OF l, folded body_def, unfolded v0] by simp
    show "lastLineRead (testData ts) = None" using b by simp
    show "assertInvariants registry ts" by (rule r(1))
    show "(of_nat (length (filter isFailure body)) :: uint) \<le> of_nat (length (filter isTestMethod body))"
      using r(4) n by simp
  qed
qed

lemma event_simps2 [simp]:
  "\<not> isTestMethod (ReadTestName x)" "\<not> isTestMethod (LogTestHeader n)" "\<not> isTestMethod (LogTestFooter n a b)"
  "\<not> isFailure (ReadTestName x)" "\<not> isFailure (LogTestHeader n)" "\<not> isFailure (LogTestFooter n a b)"
  "\<not> isAbort (ReadTestName x)" "\<not> isAbort (LogTestHeader n)" "\<not> isAbort (LogTestFooter n a b)"
  "\<not> inBlock (ReadTestName x)" "\<not> inBlock (LogTestHeader n)" "\<not> inBlock (LogTestFooter n a b)"
  by (simp_all add: isTestMethod_def isFailure_def isAbort_def inBlock_def)

lemma runTests_bodyE [consumes 1, case_names unknown goOn aborted]:
  assumes "runTests_body registry tests (False, Some n) ts = Some (st1, ts1)"
  obtains
    r td where "getTest n tests = None" "readTestName (testData ts) = (r, td)"
      "st1 = (False, r)" "ts1 = emit (ReadTestName r) (ts\<lparr>testData := td\<rparr>)"
  | test tsb r td where "getTest n tests = Some test" "runTest registry test ts = Some (True, tsb)"
      "readTestName (testData tsb) = (r, td)"
      "st1 = (False, r)" "ts1 = emit (ReadTestName r) (tsb\<lparr>testData := td\<rparr>)"
  | test where "getTest n tests = Some test" "runTest registry test ts = Some (False, ts1)"
      "st1 = (True, Some n)"
proof (cases "getTest n tests")
  case None
  obtain r td where rn: "readTestName (testData ts) = (r, td)"
    by (cases "readTestName (testData ts)")
  with None assms have "st1 = (False, r)" "ts1 = emit (ReadTestName r) (ts\<lparr>testData := td\<rparr>)"
    by (simp_all add: runTests_body_def)
  with None rn show thesis by (rule that(1))
next
  case (Some test)
  then obtain goOn tsb where rt: "runTest registry test ts = Some (goOn, tsb)"
    using assms by (cases "runTest registry test ts") (auto simp: runTests_body_def)
  show thesis
  proof (cases goOn)
    case True
    obtain r td where rn: "readTestName (testData tsb) = (r, td)"
      by (cases "readTestName (testData tsb)")
    with Some rt True assms have "st1 = (False, r)" "ts1 = emit (ReadTestName r) (tsb\<lparr>testData := td\<rparr>)"
      by (simp_all add: runTests_body_def)
    with Some rt True rn show thesis by (intro that(2)) simp_all
  next
    case False
    with Some rt assms have "st1 = (True, Some n)" "ts1 = tsb"
      by (simp_all add: runTests_body_def)
    with Some rt False show thesis by (intro that(3)) simp_all
  qed
qed

lemma runTests_loop_stop [simp]:
  "fst st \<or> snd st = None \<Longrightarrow> runTests_loop registry tests st ts = Some ts"
  by (subst runTests_loop.simps) auto

lemma runTests_loop_step:
  "runTests_loop registry tests (False, Some n) ts =
     (case runTests_body registry tests (False, Some n) ts of
        None \<Rightarrow> None
      | Some (st', ts') \<Rightarrow> runTests_loop registry tests st' ts')"
  by (subst runTests_loop.simps) simp

lemma runTests_loop_induct [consumes 1, case_names stop step]:
  "runTests_loop registry tests st ts = Some ts' \<Longrightarrow>
   (\<And>st ts. fst st \<or> snd st = None \<Longrightarrow> P st ts ts) \<Longrightarrow>
   (\<And>n ts st1 ts1 ts'.
       runTests_body registry tests (False, Some n) ts = Some (st1, ts1) \<Longrightarrow>
       runTests_loop registry tests st1 ts1 = Some ts' \<Longrightarrow>
       P st1 ts1 ts' \<Longrightarrow> P (False, Some n) ts ts') \<Longrightarrow>
   P st ts ts'"
proof (induction registry tests st ts rule: runTests_loop.induct)
  case (1 registry tests st ts)
  show ?case
  proof (cases "\<not> fst st \<and> snd st \<noteq> None")
    case False
    then have "ts' = ts" using "1.prems"(1) by auto
    then show ?thesis using "1.prems"(2) [of st ts] False by simp
  next
    case True
    then obtain n where st: "st = (False, Some n)" by (cases st) auto
    then obtain st1 ts1 where b: "runTests_body registry tests (False, Some n) ts = Some (st1, ts1)"
      and l: "runTests_loop registry tests st1 ts1 = Some ts'"
      using "1.prems"(1) by (auto simp: runTests_loop_step split: option.splits)
    have p: "P st1 ts1 ts'"
      by (rule "1.IH" [OF True b [folded st] refl l "1.prems"(2) "1.prems"(3)])
    show ?thesis unfolding st by (rule "1.prems"(3) [OF b l p])
  qed
qed

text \<open>The events of one pass through the body of the loop of \<open>runTests\<close>.\<close>

definition blockEvents :: "string \<Rightarrow> string option \<Rightarrow> event list \<Rightarrow> event list" where
  "blockEvents nm d body =
     ReadTestCase d # LogTestHeader nm # body @
       [LogTestFooter nm (of_nat (length (filter isTestMethod body)))
          (of_nat (length (filter isFailure body)))]"

lemma blockEvents_simps [simp]:
  "filter isTestMethod (blockEvents nm d body) = filter isTestMethod body"
  "filter isFailure (blockEvents nm d body) = filter isFailure body"
  by (simp_all add: blockEvents_def)

lemma runTests_body_stepE [consumes 1, case_names unknown block]:
  assumes "runTests_body registry tests (False, Some n) ts = Some (st1, ts1)"
  obtains
    r where "getTest n tests = None" "st1 = (False, r)" "trace ts1 = trace ts @ [ReadTestName r]"
      "totalTestCases ts1 = totalTestCases ts" "totalFailedTestCases ts1 = totalFailedTestCases ts"
      "remaining (testData ts1) \<le> remaining (testData ts)"
      "lastLineRead (testData ts1) = None"
  | test goOn tsb where "getTest n tests = Some test" "runTest registry test ts = Some (goOn, tsb)"
      "st1 = (\<not> goOn, if goOn then snd st1 else Some n)"
      "trace ts1 = trace tsb @ (if goOn then [ReadTestName (snd st1)] else [])"
      "totalTestCases ts1 = totalTestCases tsb" "totalFailedTestCases ts1 = totalFailedTestCases tsb"
      "remaining (testData ts1) \<le> remaining (testData tsb)"
      "goOn \<longrightarrow> lastLineRead (testData ts1) = None"
  using assms
proof (cases rule: runTests_bodyE)
  case (unknown r td)
  from readTestName_bounds [OF unknown(2)] unknown show ?thesis
    by (intro that(1) [of r]) (simp_all add: emit_def)
next
  case (goOn test tsb r td)
  from readTestName_bounds [OF goOn(3)] goOn show ?thesis
    by (intro that(2) [of test True tsb]) (simp_all add: emit_def)
next
  case (aborted test)
  then show ?thesis
    by (intro that(2) [of test False ts1]) simp_all
qed


lemma runTest_trace:
  assumes "runTest registry test ts = Some (goOn, ts')"
  shows "trace ts' = trace ts @ newEvents ts ts'"
proof -
  from assms obtain d body where
    "trace ts' = trace ts @ ReadTestCase d # LogTestHeader (name test) # body @
       [LogTestFooter (name test) (of_nat (length (filter isTestMethod body)))
          (of_nat (length (filter isFailure body)))]"
    by (rule runTest_blockE)
  then show ?thesis by (rule newEvents_trace)
qed

lemma runTests_loop_trace:
  "runTests_loop registry tests st ts = Some ts' \<Longrightarrow> trace ts' = trace ts @ newEvents ts ts'"
proof (induction rule: runTests_loop_induct)
  case (stop st ts)
  then show ?case by simp
next
  case (step n ts st1 ts1 ts')
  from step(1) have "\<exists>seg. trace ts1 = trace ts @ seg"
  proof (cases rule: runTests_body_stepE)
    case (unknown r)
    then show ?thesis by blast
  next
    case (block test goOn tsb)
    note goOn = block
    from runTest_trace [OF goOn(2)] goOn(4)
    have "trace ts1 = trace ts @ (newEvents ts tsb @ (if goOn then [ReadTestName (snd st1)] else []))"
      by simp
    then show ?thesis by blast
  qed
  then obtain seg where "trace ts1 = trace ts @ seg" by blast
  with step(3) have "trace ts' = trace ts @ (seg @ newEvents ts1 ts')" by simp
  then show ?case by (rule newEvents_trace)
qed

lemma runTests_loop_stepE [consumes 2, case_names unknown block]:
  assumes "runTests_body registry tests (False, Some n) ts = Some (st1, ts1)"
    and "runTests_loop registry tests st1 ts1 = Some ts'"
  obtains
    r where "getTest n tests = None" "st1 = (False, r)"
      "newEvents ts ts' = ReadTestName r # newEvents ts1 ts'"
      "totalTestCases ts1 = totalTestCases ts" "totalFailedTestCases ts1 = totalFailedTestCases ts"
      "remaining (testData ts1) \<le> remaining (testData ts)"
      "lastLineRead (testData ts1) = None"
  | test goOn d body where "getTest n tests = Some test"
      "st1 = (\<not> goOn, if goOn then snd st1 else Some n)"
      "newEvents ts ts' = blockEvents (name test) d body @
          (if goOn then ReadTestName (snd st1) # newEvents ts1 ts' else [])"
      "totalTestCases ts1 = totalTestCases ts + of_nat (length (filter isTestMethod body))"
      "totalFailedTestCases ts1 = totalFailedTestCases ts + of_nat (length (filter isFailure body))"
      "length (filter isTestMethod body) + remaining (testData ts1) \<le> remaining (testData ts)"
      "list_all inBlock body"
      "(goOn \<and> \<not> list_ex isAbort body) \<or>
       (\<exists>pre ub tc res r.
         body = pre @ caseEvents (name test) ub tc res r \<and> list_all isUser ub \<and>
         \<not> list_ex isAbort pre \<and> (res = abortThisTest \<or> res = abortAllTests) \<and>
         goOn = (res = abortThisTest))"
      "d = None \<longrightarrow> body = []"
      "\<forall>caseText. d = Some caseText \<longrightarrow>
       (\<exists>ub lc res rest. body = ub @ TestMethod (name test) (TestCase 1 lc caseText) res # rest \<and>
          list_all isUser ub)"
      "goOn \<longrightarrow> lastLineRead (testData ts1) = None"
proof -
  note t' = runTests_loop_trace [OF assms(2)]
  from assms(1) show thesis
  proof (cases rule: runTests_body_stepE)
    case (unknown r)
    have "newEvents ts ts' = [ReadTestName r] @ newEvents ts1 ts'"
      using unknown(3) t' by (rule newEvents_append)
    with unknown show ?thesis by (intro that(1) [of r]) simp_all
  next
    case (block test goOn tsb)
    note goOn = block
    from goOn(2) obtain d body where b:
      "trace tsb = trace ts @ ReadTestCase d # LogTestHeader (name test) # body @
         [LogTestFooter (name test) (of_nat (length (filter isTestMethod body)))
            (of_nat (length (filter isFailure body)))]"
      "totalTestCases tsb = totalTestCases ts + of_nat (length (filter isTestMethod body))"
      "totalFailedTestCases tsb = totalFailedTestCases ts + of_nat (length (filter isFailure body))"
      "list_all inBlock body"
      "length (filter isTestMethod body) + remaining (testData tsb) \<le> remaining (testData ts)"
      "(goOn \<and> \<not> list_ex isAbort body) \<or>
       (\<exists>pre ub tc res r.
         body = pre @ caseEvents (name test) ub tc res r \<and> list_all isUser ub \<and>
         \<not> list_ex isAbort pre \<and> (res = abortThisTest \<or> res = abortAllTests) \<and>
         goOn = (res = abortThisTest))"
      "d = None \<longrightarrow> body = []"
      "\<forall>caseText. d = Some caseText \<longrightarrow>
       (\<exists>ub lc res rest. body = ub @ TestMethod (name test) (TestCase 1 lc caseText) res # rest \<and>
          list_all isUser ub)"
      by (rule runTest_blockE)
    have stop: "\<not> goOn \<Longrightarrow> ts' = ts1"
      using assms(2) goOn(3) by (cases st1) auto
    have "trace ts1 = trace ts @ (blockEvents (name test) d body @
            (if goOn then [ReadTestName (snd st1)] else []))"
      using goOn(4) b(1) by (simp add: blockEvents_def)
    from newEvents_append [OF this t'] stop
    have ne: "newEvents ts ts' = blockEvents (name test) d body @
          (if goOn then ReadTestName (snd st1) # newEvents ts1 ts' else [])"
      by (cases goOn) simp_all
    show ?thesis
    proof (rule that(2) [of test goOn d body])
      show "length (filter isTestMethod body) + remaining (testData ts1) \<le> remaining (testData ts)"
        using b(5) goOn(7) by simp
    qed (use goOn b ne in simp_all)
  qed
qed

lemma runTests_loop_counts:
  "runTests_loop registry tests st ts = Some ts' \<Longrightarrow>
     totalTestCases ts' = totalTestCases ts + of_nat (length (filter isTestMethod (newEvents ts ts'))) \<and>
     totalFailedTestCases ts' =
       totalFailedTestCases ts + of_nat (length (filter isFailure (newEvents ts ts'))) \<and>
     length (filter isTestMethod (newEvents ts ts')) + remaining (testData ts')
       \<le> remaining (testData ts)"
proof (induction rule: runTests_loop_induct)
  case (stop st ts)
  then show ?case by simp
next
  case (step n ts st1 ts1 ts')
  from step(1,2) show ?case
  proof (cases rule: runTests_loop_stepE)
    case (unknown r)
    with step(3) show ?thesis by simp
  next
    case (block test goOn d body)
    show ?thesis
    proof (cases goOn)
      case True
      with block(3,4,5,6) step(3) show ?thesis by simp
    next
      case False
      then have "ts' = ts1" using step(2) block(2) by (cases st1) auto
      with False block(3,4,5,6) show ?thesis by simp
    qed
  qed
qed

lemma event_simps3 [simp]:
  "\<not> isTestMethod NoValidTestNames" "\<not> isFailure NoValidTestNames" "\<not> isAbort NoValidTestNames"
  "\<not> isTestMethod LogHeader" "\<not> isFailure LogHeader" "\<not> isAbort LogHeader"
  "\<not> isTestMethod LogFooter" "\<not> isFailure LogFooter" "\<not> isAbort LogFooter"
  "\<not> isTestMethod (LogUnknownTestName n)" "\<not> isFailure (LogUnknownTestName n)"
  "\<not> isAbort (LogUnknownTestName n)"
  by (simp_all add: isTestMethod_def isFailure_def isAbort_def)

lemma runTests_SomeE [consumes 1, case_names none some]:
  assumes "runTests registry tests ts = Some ts'"
  obtains "tests = []" "assertInvariants registry ts" "ts' = emit NoValidTestNames ts"
  | r td where "tests \<noteq> []" "assertInvariants registry ts"
      "readTestName (testData ts) = (r, td)"
      "runTests_loop registry tests (False, r) (emit (ReadTestName r) (ts\<lparr>testData := td\<rparr>)) = Some ts'"
      "assertInvariants registry ts'"
proof -
  have inv: "assertInvariants registry ts"
    using assms by (auto simp: runTests_def assert_def split: if_splits)
  show thesis
  proof (cases "tests = []")
    case True
    with assms inv have "ts' = emit NoValidTestNames ts"
      by (simp add: runTests_def assert_def)
    with True inv show thesis by (rule that(1))
  next
    case False
    obtain r td where rn: "readTestName (testData ts) = (r, td)"
      by (cases "readTestName (testData ts)")
    with False inv assms
    have "runTests_loop registry tests (False, r) (emit (ReadTestName r) (ts\<lparr>testData := td\<rparr>)) = Some ts'"
      "assertInvariants registry ts'"
      by (auto simp: runTests_def assert_def split: Option.bind_splits if_splits)
    with False inv rn show thesis by (rule that(2))
  qed
qed

lemma runTests_counts:
  assumes "runTests registry tests ts = Some ts'"
  shows "trace ts' = trace ts @ newEvents ts ts'"
    and "totalTestCases ts' = totalTestCases ts + of_nat (length (filter isTestMethod (newEvents ts ts')))"
    and "totalFailedTestCases ts' =
           totalFailedTestCases ts + of_nat (length (filter isFailure (newEvents ts ts')))"
    and "length (filter isTestMethod (newEvents ts ts')) + remaining (testData ts')
           \<le> remaining (testData ts)"
    and "assertInvariants registry ts'"
proof -
  have "trace ts' = trace ts @ newEvents ts ts' \<and>
     totalTestCases ts' = totalTestCases ts + of_nat (length (filter isTestMethod (newEvents ts ts'))) \<and>
     totalFailedTestCases ts' =
       totalFailedTestCases ts + of_nat (length (filter isFailure (newEvents ts ts'))) \<and>
     length (filter isTestMethod (newEvents ts ts')) + remaining (testData ts')
       \<le> remaining (testData ts) \<and> assertInvariants registry ts'"
    using assms
  proof (cases rule: runTests_SomeE)
    case none
    then have "trace ts' = trace ts @ [NoValidTestNames]" by (simp add: emit_def)
    from newEvents_eq [OF this] this none show ?thesis
      by (simp add: emit_def assertInvariants_def)
  next
    case (some r td)
    let ?ts1 = "emit (ReadTestName r) (ts\<lparr>testData := td\<rparr>)"
    have t1: "trace ?ts1 = trace ts @ [ReadTestName r]" by (simp add: emit_def)
    have ne: "newEvents ts ts' = [ReadTestName r] @ newEvents ?ts1 ts'"
      using t1 runTests_loop_trace [OF some(4)] by (rule newEvents_append)
    from runTests_loop_counts [OF some(4)] readTestName_bounds [OF some(3)] some(5)
      runTests_loop_trace [OF some(4)]
    show ?thesis by (simp add: ne emit_def)
  qed
  then show "trace ts' = trace ts @ newEvents ts ts'"
    and "totalTestCases ts' = totalTestCases ts + of_nat (length (filter isTestMethod (newEvents ts ts')))"
    and "totalFailedTestCases ts' =
           totalFailedTestCases ts + of_nat (length (filter isFailure (newEvents ts ts')))"
    and "length (filter isTestMethod (newEvents ts ts')) + remaining (testData ts')
           \<le> remaining (testData ts)"
    and "assertInvariants registry ts'"
    by simp_all
qed


text \<open>The public operations, reduced to \<open>runTests\<close>: \<open>selection\<close> is the list that
  \<open>getTests\<close> builds from the requested names, \<open>unknownNames\<close> are the names it logs,
  \<open>prepared\<close> is the suite after \<open>prepareForTesting\<close>.\<close>

definition selection :: "Test list \<Rightarrow> string list \<Rightarrow> Test list" where
  "selection registry testNames = rev (List.map_filter (\<lambda>n. getTest n registry) testNames)"

definition unknownNames :: "Test list \<Rightarrow> string list \<Rightarrow> string list" where
  "unknownNames registry testNames = filter (\<lambda>n. getTest n registry = None) testNames"

definition prepared :: "TestSuite \<Rightarrow> TestSuite" where
  "prepared ts = ts\<lparr>totalTestCases := 0, totalFailedTestCases := 0, testData := reset (testData ts)\<rparr>"

definition emits :: "event list \<Rightarrow> TestSuite \<Rightarrow> TestSuite" where
  "emits es ts = ts\<lparr>trace := trace ts @ es\<rparr>"

lemma emit_emits: "emit e ts = emits [e] ts"
  by (simp add: emit_def emits_def)

lemma emits_emits: "emits a (emits b ts) = emits (b @ a) ts"
  by (simp add: emits_def)

lemma emits_Nil [simp]: "emits [] ts = ts"
  by (simp add: emits_def)

lemma emits_fields [simp]:
  "trace (emits es ts) = trace ts @ es" "testData (emits es ts) = testData ts"
  "totalTestCases (emits es ts) = totalTestCases ts"
  "totalFailedTestCases (emits es ts) = totalFailedTestCases ts"
  by (simp_all add: emits_def)

lemma prepared_fields [simp]:
  "trace (prepared ts) = trace ts" "testData (prepared ts) = reset (testData ts)"
  "totalTestCases (prepared ts) = 0" "totalFailedTestCases (prepared ts) = 0"
  by (simp_all add: prepared_def)

lemma getTests_loop_eq:
  "getTests_loop registry testNames tests ts =
     (selection registry testNames @ tests,
      emits (map LogUnknownTestName (unknownNames registry testNames)) ts)"
proof (induction testNames arbitrary: tests ts)
  case Nil
  then show ?case by (simp add: selection_def unknownNames_def List.map_filter_simps)
next
  case (Cons n ns)
  then show ?case
    by (cases "getTest n registry")
       (simp_all add: selection_def unknownNames_def List.map_filter_simps emit_emits emits_emits)
qed

lemma assertInvariants_emits [simp]:
  "assertInvariants registry (emits es ts) = assertInvariants registry ts"
  by (simp add: assertInvariants_def)

lemma assert_simps [simp]: "assert True = Some ()" "assert False = None"
  by (simp_all add: assert_def)

lemma prepareForTesting_eq:
  "prepareForTesting registry ts = (if assertInvariants registry ts then Some (prepared ts) else None)"
  by (simp add: prepareForTesting_def assert_def prepared_def assertInvariants_def)

lemma assertInvariants_prepared [simp]:
  "assertInvariants registry ts \<Longrightarrow> assertInvariants registry (prepared ts)"
  by (simp add: assertInvariants_def)

lemma runTests_then_footer:
  "runTests registry tests ts \<bind>
     (\<lambda>ts3. assert (assertInvariants registry ts3) \<bind> (\<lambda>_. Some (emits [LogFooter] ts3)))
   = map_option (emits [LogFooter]) (runTests registry tests ts)"
proof (cases "runTests registry tests ts")
  case None
  then show ?thesis by simp
next
  case (Some ts3)
  from runTests_counts(5) [OF this] Some show ?thesis
    by simp
qed

lemma TestSuite_all_eq:
  "TestSuite_all registry ts =
     (if assertInvariants registry ts
      then map_option (emits [LogFooter]) (runTests registry registry (emits [LogHeader] (prepared ts)))
      else None)"
  by (cases "assertInvariants registry ts")
     (simp_all add: TestSuite_all_def prepareForTesting_eq emit_emits runTests_then_footer)

lemma TestSuite_group_eq:
  "TestSuite_group registry testNames ts =
     (if assertInvariants registry ts \<and> testNames \<noteq> []
      then map_option (emits [LogFooter])
             (runTests registry (selection registry testNames)
                (emits (LogHeader # map LogUnknownTestName (unknownNames registry testNames))
                   (prepared ts)))
      else None)"
  by (cases "assertInvariants registry ts"; cases "testNames = []")
     (simp_all add: TestSuite_group_def prepareForTesting_eq emit_emits emits_emits
        runTests_then_footer getTests_def getTests_loop_eq)

lemma TestSuite_group_va_eq:
  "TestSuite_group_va registry firstTestName argList ts =
     (if assertInvariants registry ts
      then map_option (emits [LogFooter])
             (runTests registry (selection registry (firstTestName # argList))
                (emits (LogHeader # map LogUnknownTestName
                          (unknownNames registry (firstTestName # argList)))
                   (prepared ts)))
      else None)"
  by (cases "assertInvariants registry ts")
     (simp_all add: TestSuite_group_va_def prepareForTesting_eq emit_emits emits_emits
        runTests_then_footer getTests_def getTests_loop_eq)

lemma TestSuite_one_eq:
  "TestSuite_one registry testName ts =
     (if assertInvariants registry ts
      then map_option (emits [LogFooter])
             (runTests registry (selection registry [testName])
                (emits (LogHeader # map LogUnknownTestName (unknownNames registry [testName]))
                   (prepared ts)))
      else None)"
  by (cases "assertInvariants registry ts")
     (simp_all add: TestSuite_one_def prepareForTesting_eq emit_emits emits_emits
        runTests_then_footer getTests_def getTests_loop_eq)












section \<open>Requested names and failure counts\<close>

lemma getTest_name: "getTest n tests = Some t \<Longrightarrow> name t = n \<and> t \<in> set tests"
  by (induction tests) (auto split: if_splits)

lemma getTest_None: "(getTest n tests = None) = (n \<notin> name ` set tests)"
  by (induction tests) auto






text \<open>
  For the examples: a test in the manner of \<open>testTestResult\<close> of the example program,
  whose result is named by the text of the test case, and a fresh suite on a given
  stream text.
\<close>

definition verdictTest :: "string \<Rightarrow> Test" where
  "verdictTest nm = \<lparr>name = nm, testMethod = (\<lambda>history testCase.
      if dataAsText testCase = ''fail'' then Return fail
      else if dataAsText testCase = ''abortThisTest'' then Return abortThisTest
      else if dataAsText testCase = ''abortAllTests'' then Return abortAllTests
      else Return pass)\<rparr>"

definition suiteOn :: "string \<Rightarrow> TestSuite" where
  "suiteOn data =
     \<lparr>testData = \<lparr>dataStream = \<lparr>content = data, unread = data, ending = EndOfStream, rdstate = None\<rparr>,
                  lineCounter = 0, lastLineRead = None\<rparr>,
      trace = [], totalTestCases = 0, totalFailedTestCases = 0\<rparr>"

text \<open>
  C10: every result of a test method other than \<open>pass\<close>, that is \<open>fail\<close>,
  \<open>abortThisTest\<close> and \<open>abortAllTests\<close> alike, adds exactly one to the failed-case
  count of the block: one pass through the loop body calls the test method once, adds
  one to the case count and adds one to the failed count unless the result is \<open>pass\<close>;
  the footer of a block shows the number of calls and the number of calls with a result
  other than \<open>pass\<close> in that block, and \<open>runTest\<close> adds the same two numbers to the totals
  of the run; after \<open>all\<close> the totals are the numbers of such calls in the whole run.
\<close>

theorem every_non_pass_result_is_counted:
  "(runTest_body test v ts = Some (w, tsw) \<longrightarrow>
      (\<exists>tc r. filter isTestMethod (newEvents ts tsw) = [TestMethod (name test) tc r] \<and>
         testCaseNum w = testCaseNum v + 1 \<and>
         numFailedTestCases w = numFailedTestCases v + (if r = pass then 0 else 1)))
   \<and> (runTest registry test ts = Some (goOn, tsBlock) \<longrightarrow>
        trace tsBlock = trace ts @ newEvents ts tsBlock \<and>
        last (newEvents ts tsBlock) =
          LogTestFooter (name test)
            (of_nat (length (filter isTestMethod (newEvents ts tsBlock))))
            (of_nat (length (filter isFailure (newEvents ts tsBlock)))) \<and>
        totalTestCases tsBlock =
          totalTestCases ts + of_nat (length (filter isTestMethod (newEvents ts tsBlock))) \<and>
        totalFailedTestCases tsBlock =
          totalFailedTestCases ts + of_nat (length (filter isFailure (newEvents ts tsBlock))))
   \<and> (TestSuite_all registry ts = Some tsRun \<longrightarrow>
        trace tsRun = trace ts @ newEvents ts tsRun \<and>
        totalTestCases tsRun = of_nat (length (filter isTestMethod (newEvents ts tsRun))) \<and>
        totalFailedTestCases tsRun = of_nat (length (filter isFailure (newEvents ts tsRun))))
   \<and> isFailure (TestMethod nm tc res) = (res = fail \<or> res = abortThisTest \<or> res = abortAllTests)"
proof (intro conjI impI)
  assume "runTest_body test v ts = Some (w, tsw)"
  then obtain ub r d where f: "list_all isUser ub"
    "trace tsw = trace ts @ ub @
        TestMethod (name test)
          (TestCase (testCaseNum v + 1) (ucast (lineCounter (testData ts))) (the (testCaseData v))) r #
        verdictEvents (name test)
          (TestCase (testCaseNum v + 1) (ucast (lineCounter (testData ts))) (the (testCaseData v))) r @
        [ReadTestCase d]"
    "w = v\<lparr>testCaseNum := testCaseNum v + 1,
           abortTest := (abortTest v \<or> r = abortThisTest \<or> r = abortAllTests),
           abortAll := (abortAll v \<or> r = abortAllTests),
           numFailedTestCases := numFailedTestCases v + (if r = pass then 0 else 1),
           testCaseData := d\<rparr>"
    by (rule runTest_bodyE)
  from newEvents_eq [OF f(2)] f(1,3)
  show "\<exists>tc r. filter isTestMethod (newEvents ts tsw) = [TestMethod (name test) tc r] \<and>
         testCaseNum w = testCaseNum v + 1 \<and>
         numFailedTestCases w = numFailedTestCases v + (if r = pass then 0 else 1)"
    by simp
next
  assume "runTest registry test ts = Some (goOn, tsBlock)"
  then obtain d body where b:
    "trace tsBlock = trace ts @ ReadTestCase d # LogTestHeader (name test) # body @
       [LogTestFooter (name test) (of_nat (length (filter isTestMethod body)))
          (of_nat (length (filter isFailure body)))]"
    "totalTestCases tsBlock = totalTestCases ts + of_nat (length (filter isTestMethod body))"
    "totalFailedTestCases tsBlock = totalFailedTestCases ts + of_nat (length (filter isFailure body))"
    by (rule runTest_blockE)
  note ne = newEvents_eq [OF b(1)]
  show "trace tsBlock = trace ts @ newEvents ts tsBlock" using b(1) by (rule newEvents_trace)
  show "last (newEvents ts tsBlock) =
          LogTestFooter (name test)
            (of_nat (length (filter isTestMethod (newEvents ts tsBlock))))
            (of_nat (length (filter isFailure (newEvents ts tsBlock))))"
    by (simp add: ne)
  show "totalTestCases tsBlock =
          totalTestCases ts + of_nat (length (filter isTestMethod (newEvents ts tsBlock)))"
    using b(2) by (simp add: ne)
  show "totalFailedTestCases tsBlock =
          totalFailedTestCases ts + of_nat (length (filter isFailure (newEvents ts tsBlock)))"
    using b(3) by (simp add: ne)
next
  assume a: "TestSuite_all registry ts = Some tsRun"
  then obtain ts2 where r: "runTests registry registry (emits [LogHeader] (prepared ts)) = Some ts2"
    and e: "tsRun = emits [LogFooter] ts2"
    by (auto simp: TestSuite_all_eq split: if_splits)
  note c = runTests_counts [OF r]
  have "trace tsRun = trace ts @ (LogHeader # newEvents (emits [LogHeader] (prepared ts)) ts2 @ [LogFooter])"
    using c(1) e by simp
  note ne = newEvents_eq [OF this]
  show "trace tsRun = trace ts @ newEvents ts tsRun"
    using \<open>trace tsRun = trace ts @ (LogHeader # newEvents (emits [LogHeader] (prepared ts)) ts2 @ [LogFooter])\<close>
    by (rule newEvents_trace)
  show "totalTestCases tsRun = of_nat (length (filter isTestMethod (newEvents ts tsRun)))"
    unfolding ne using c(2) e by simp
  show "totalFailedTestCases tsRun = of_nat (length (filter isFailure (newEvents ts tsRun)))"
    unfolding ne using c(3) e by simp
next
  show "isFailure (TestMethod nm tc res) = (res = fail \<or> res = abortThisTest \<or> res = abortAllTests)"
    by (simp add: isFailure_def)
qed


definition verdictWitness :: TestSuite where
  "verdictWitness = suiteOn (unlines ['':a'', ''pass'', ''fail'', ''abortThisTest'', ''pass'',
                                      '':a'', ''abortAllTests'', ''pass''])"

definition verdictVars :: runTestVars where
  "verdictVars = \<lparr>testCaseNum = 0, abortTest = False, abortAll = False,
                   numFailedTestCases = 0, testCaseData = Some ''abortThisTest''\<rparr>"

theorem every_non_pass_result_is_counted_witness:
  "TestSuite_all [verdictTest ''a''] verdictWitness \<noteq> None
   \<and> runTest [verdictTest ''a''] (verdictTest ''a'') (suiteOn (unlines [''abortAllTests''])) \<noteq> None
   \<and> runTest_body (verdictTest ''a'') verdictVars (suiteOn []) \<noteq> None
   \<and> numFailedTestCases (fst (the (runTest_body (verdictTest ''a'') verdictVars (suiteOn [])))) = 1
   \<and> totalFailedTestCases
         (snd (the (runTest [verdictTest ''a''] (verdictTest ''a'') (suiteOn (unlines [''abortAllTests''])))))
       = 1
   \<and> totalTestCases (the (TestSuite_all [verdictTest ''a''] verdictWitness)) = 4
   \<and> totalFailedTestCases (the (TestSuite_all [verdictTest ''a''] verdictWitness)) = 3"
proof -
  let ?R = "[verdictTest ''a'']"
  let ?b = "runTest_body (verdictTest ''a'') verdictVars (suiteOn [])"
  let ?t = "runTest ?R (verdictTest ''a'') (suiteOn (unlines [''abortAllTests'']))"
  let ?a = "TestSuite_all ?R verdictWitness"
  have b: "?b = Some (fst (the ?b), snd (the ?b))" by code_simp
  have t: "?t = Some (fst (the ?t), snd (the ?t))" by code_simp
  have a: "?a = Some (the ?a)" by code_simp
  note th1 = every_non_pass_result_is_counted [where test = "verdictTest ''a''" and v = verdictVars
      and ts = "suiteOn []" and w = "fst (the ?b)" and tsw = "snd (the ?b)"]
  have cb: "filter isTestMethod (newEvents (suiteOn []) (snd (the ?b))) =
      [TestMethod ''a'' (TestCase 1 0 ''abortThisTest'') abortThisTest]"
    by code_simp
  from th1 b cb have 1: "numFailedTestCases (fst (the ?b)) = numFailedTestCases verdictVars + 1"
    by (auto simp: verdictTest_def)
  note th2 = every_non_pass_result_is_counted [where registry = "?R" and test = "verdictTest ''a''"
      and ts = "suiteOn (unlines [''abortAllTests''])" and goOn = "fst (the ?t)" and tsBlock = "snd (the ?t)"]
  have ct: "length (filter isFailure (newEvents (suiteOn (unlines [''abortAllTests''])) (snd (the ?t)))) = 1"
    by code_simp
  from th2 t ct have 2: "totalFailedTestCases (snd (the ?t)) =
      totalFailedTestCases (suiteOn (unlines [''abortAllTests''])) + 1"
    by simp
  note th3 = every_non_pass_result_is_counted [where registry = "?R" and ts = verdictWitness
      and tsRun = "the ?a"]
  have ca: "length (filter isTestMethod (newEvents verdictWitness (the ?a))) = 4"
    "length (filter isFailure (newEvents verdictWitness (the ?a))) = 3"
    by code_simp+
  from th3 a ca have 3: "totalTestCases (the ?a) = 4" "totalFailedTestCases (the ?a) = 3"
    by simp_all
  have nb: "?b \<noteq> None" and nt: "?t \<noteq> None" and na: "?a \<noteq> None"
    by code_simp+
  have f1: "numFailedTestCases (fst (the ?b)) = 1"
    using 1 by (simp add: verdictVars_def)
  have f2: "totalFailedTestCases (snd (the ?t)) = 1"
    using 2 by (simp add: suiteOn_def)
  from nb nt na f1 f2 3 show ?thesis
    by blast
qed

section \<open>The order of the calls\<close>

lemma getTest_Some_iff:
  "distinct (map name tests) \<Longrightarrow> (getTest n tests = Some t) = (t \<in> set tests \<and> name t = n)"
proof (induction tests)
  case Nil
  then show ?case by simp
next
  case (Cons a tests)
  then show ?case by (auto simp: image_iff)
qed

lemma getTest_permuted:
  assumes "distinct (map name xs)" "distinct (map name ys)" "set xs = set ys"
  shows "getTest n xs = getTest n ys"
proof (cases "getTest n xs")
  case None
  then have "getTest n ys = None" using assms(3) by (simp add: getTest_None)
  with None show ?thesis by simp
next
  case (Some t)
  then show ?thesis
    using getTest_Some_iff [OF assms(1)] getTest_Some_iff [OF assms(2), of n t] assms(3) by simp
qed

lemma runTest_registry:
  "(registry = []) = (registry' = []) \<Longrightarrow> runTest registry test ts = runTest registry' test ts"
  by (simp add: runTest_def assertInvariants_def)

lemma runTests_body_registry:
  assumes "(registry = []) = (registry' = [])" "\<forall>n. getTest n tests = getTest n tests'"
  shows "runTests_body registry tests st ts = runTests_body registry' tests' st ts"
proof -
  obtain a tn where st: "st = (a, tn)" by (cases st)
  have r: "runTest registry test ts = runTest registry' test ts" for test
    by (rule runTest_registry [OF assms(1)])
  show ?thesis
    by (cases "getTest (the tn) tests'") (simp_all add: runTests_body_def st assms(2) r)
qed

lemma runTests_loop_registry:
  "(registry = []) = (registry' = []) \<Longrightarrow> \<forall>n. getTest n tests = getTest n tests' \<Longrightarrow>
   runTests_loop registry tests st ts = runTests_loop registry' tests' st ts"
proof (induction registry tests st ts rule: runTests_loop.induct)
  case (1 registry tests st ts)
  note b = runTests_body_registry [OF "1.prems", of st ts]
  show ?case
  proof (cases "\<not> fst st \<and> snd st \<noteq> None")
    case False
    then show ?thesis by auto
  next
    case True
    show ?thesis
    proof (cases "runTests_body registry tests st ts")
      case None
      with True b show ?thesis
        by (simp add: runTests_loop.simps [of registry tests st ts]
              runTests_loop.simps [of registry' tests' st ts])
    next
      case (Some p)
      obtain st1 ts1 where p: "p = (st1, ts1)" by (cases p)
      from "1.IH" [OF True Some [unfolded p] refl "1.prems"]
      have ih: "runTests_loop registry tests st1 ts1 = runTests_loop registry' tests' st1 ts1" .
      have b1: "runTests_body registry tests st ts = Some (st1, ts1)"
        and b2: "runTests_body registry' tests' st ts = Some (st1, ts1)"
        using b Some p by simp_all
      show ?thesis
        using True ih
        by (simp add: runTests_loop.simps [of registry tests st ts]
              runTests_loop.simps [of registry' tests' st ts] b1 b2)
    qed
  qed
qed

lemma runTests_registry:
  assumes "(registry = []) = (registry' = [])" "\<forall>n. getTest n tests = getTest n tests'"
    "(tests = []) = (tests' = [])"
  shows "runTests registry tests ts = runTests registry' tests' ts"
  using assms(1,3) runTests_loop_registry [OF assms(1,2)]
  by (simp add: runTests_def assertInvariants_def)


text \<open>The order of the calls: \<open>followsStream cur es\<close> says that every call of a test method
  in \<open>es\<close> is a call of the test whose name was read last from the stream (\<open>cur\<close> is
  the name read last before \<open>es\<close>).\<close>

fun followsStream :: "string option \<Rightarrow> event list \<Rightarrow> bool" where
  "followsStream cur [] = True"
| "followsStream cur (ReadTestName r # es) = followsStream r es"
| "followsStream cur (TestMethod nm tc res # es) = (cur = Some nm \<and> followsStream cur es)"
| "followsStream cur (e # es) = followsStream cur es"

definition ofBlock :: "string \<Rightarrow> event \<Rightarrow> bool" where
  "ofBlock n e = (case e of ReadTestName _ \<Rightarrow> False | TestMethod nm _ _ \<Rightarrow> nm = n | _ \<Rightarrow> True)"

lemma followsStream_block:
  "list_all (ofBlock n) xs \<Longrightarrow> followsStream (Some n) (xs @ ys) = followsStream (Some n) ys"
proof (induction xs)
  case Nil
  then show ?case by simp
next
  case (Cons e xs)
  then show ?case by (cases e) (simp_all add: ofBlock_def)
qed

lemma followsStream_footer: "followsStream cur (xs @ [LogFooter]) = followsStream cur xs"
proof (induction xs arbitrary: cur)
  case Nil
  then show ?case by simp
next
  case (Cons e xs)
  then show ?case by (cases e) simp_all
qed

lemma ofBlock_simps [simp]:
  "isUser e \<Longrightarrow> ofBlock n e" "ofBlock n (TestMethod nm tc r) = (nm = n)"
  "ofBlock n (ReadTestCase d)" "ofBlock n (LogTestHeader m)" "ofBlock n (LogTestFooter m a b)"
  "list_all (ofBlock n) (verdictEvents m tc r)"
  by (cases e; simp add: ofBlock_def isUser_def verdictEvents_def)+

lemma list_all_user_ofBlock: "list_all isUser ub \<Longrightarrow> list_all (ofBlock n) ub"
  by (induction ub) simp_all

lemma runTest_loop_names:
  "runTest_loop test v ts = Some (v', ts') \<Longrightarrow> list_all (ofBlock (name test)) (newEvents ts ts')"
proof (induction rule: runTest_loop_induct)
  case (stop v ts)
  then show ?case by simp
next
  case (step v ts v1 ts1 v' ts')
  from step(3,4) obtain ub r d where f:
    "list_all isUser ub"
    "newEvents ts ts' =
       caseEvents (name test) ub
         (TestCase (testCaseNum v + 1) (ucast (lineCounter (testData ts))) (the (testCaseData v))) r d
       @ newEvents ts1 ts'"
    by (rule runTest_loop_stepE)
  show ?case
    using step(5) list_all_user_ofBlock [OF f(1)] by (simp add: f(2) caseEvents_def)
qed

lemma runTest_names:
  assumes "runTest registry test ts = Some (goOn, ts')"
  shows "list_all (ofBlock (name test)) (newEvents ts ts')"
proof -
  from assms obtain d td v ts2 where r:
    "runTest_loop test
       \<lparr>testCaseNum = 0, abortTest = False, abortAll = False,
        numFailedTestCases = 0, testCaseData = d\<rparr>
       (ts\<lparr>testData := td, trace := trace ts @ [ReadTestCase d, LogTestHeader (name test)]\<rparr>)
     = Some (v, ts2)"
    "ts' = ts2\<lparr>trace := trace ts2 @ [LogTestFooter (name test) (testCaseNum v) (numFailedTestCases v)],
              totalTestCases := totalTestCases ts2 + testCaseNum v,
              totalFailedTestCases := totalFailedTestCases ts2 + numFailedTestCases v\<rparr>"
    by (rule runTest_SomeE)
  let ?ts1 = "ts\<lparr>testData := td, trace := trace ts @ [ReadTestCase d, LogTestHeader (name test)]\<rparr>"
  have "trace ts' = trace ts @ ([ReadTestCase d, LogTestHeader (name test)] @ newEvents ?ts1 ts2 @
          [LogTestFooter (name test) (testCaseNum v) (numFailedTestCases v)])"
    using runTest_loop_trace [OF r(1)] r(2) by simp
  from newEvents_eq [OF this] runTest_loop_names [OF r(1)] show ?thesis by simp
qed

lemma runTests_loop_followsStream:
  "runTests_loop registry tests st ts = Some ts' \<Longrightarrow> followsStream (snd st) (newEvents ts ts')"
proof (induction rule: runTests_loop_induct)
  case (stop st ts)
  then show ?case by simp
next
  case (step n ts st1 ts1 ts')
  note t' = runTests_loop_trace [OF step(2)]
  from step(1) show ?case
  proof (cases rule: runTests_body_stepE)
    case (unknown r)
    have "newEvents ts ts' = [ReadTestName r] @ newEvents ts1 ts'"
      using unknown(3) t' by (rule newEvents_append)
    with step(3) unknown(2) show ?thesis by simp
  next
    case (block test goOn tsb)
    have nm: "name test = n" using getTest_name [OF block(1)] by simp
    have "trace ts1 = trace ts @ (newEvents ts tsb @ (if goOn then [ReadTestName (snd st1)] else []))"
      using runTest_trace [OF block(2)] block(4) by simp
    from newEvents_append [OF this t']
    have ne: "newEvents ts ts' =
        newEvents ts tsb @ ((if goOn then [ReadTestName (snd st1)] else []) @ newEvents ts1 ts')"
      by simp
    have stop: "\<not> goOn \<Longrightarrow> newEvents ts1 ts' = []"
      using step(2) block(3) by (cases st1) auto
    from runTest_names [OF block(2)] nm
    have "followsStream (Some n) (newEvents ts ts') =
          followsStream (Some n) ((if goOn then [ReadTestName (snd st1)] else []) @ newEvents ts1 ts')"
      unfolding ne by (intro followsStream_block) simp
    with step(3) stop show ?thesis by (cases goOn) simp_all
  qed
qed

lemma runTests_followsStream:
  assumes "runTests registry tests ts = Some ts'"
  shows "followsStream cur (newEvents ts ts')"
  using assms
proof (cases rule: runTests_SomeE)
  case none
  then have "trace ts' = trace ts @ [NoValidTestNames]" by (simp add: emit_def)
  from newEvents_eq [OF this] show ?thesis by simp
next
  case (some r td)
  let ?ts1 = "emit (ReadTestName r) (ts\<lparr>testData := td\<rparr>)"
  have "trace ?ts1 = trace ts @ [ReadTestName r]" by (simp add: emit_def)
  from newEvents_append [OF this runTests_loop_trace [OF some(4)]]
    runTests_loop_followsStream [OF some(4)]
  show ?thesis by simp
qed


text \<open>
  C6 (as stated, refuted): \<open>all\<close> is said to call the registered tests in reverse
  order of registration.  Here \<open>first\<close> is registered before \<open>second\<close>, so the registry
  holds \<open>second\<close> in front; the stream has the block of \<open>first\<close> before the block of
  \<open>second\<close>, and \<open>all\<close> calls \<open>first\<close> before \<open>second\<close>.
\<close>

theorem all_reverse_registration_counterexample:
  "registerTest (verdictTest ''second'') ([verdictTest ''first''], True) =
     Some ([verdictTest ''second'', verdictTest ''first''], True)
   \<and> map_option (\<lambda>ts. filter isTestMethod (trace ts))
       (TestSuite_all [verdictTest ''second'', verdictTest ''first'']
          (suiteOn (unlines ['':first'', ''pass'', '':second'', ''pass''])))
     = Some [TestMethod ''first'' (TestCase 1 2 ''pass'') pass,
             TestMethod ''second'' (TestCase 1 4 ''pass'') pass]"
proof -
  have "registerTest (verdictTest ''second'') ([verdictTest ''first''], True) =
     Some ([verdictTest ''second'', verdictTest ''first''], True)"
    by (simp add: registerTest_def)
  moreover have "map_option (\<lambda>ts. filter isTestMethod (trace ts))
       (TestSuite_all [verdictTest ''second'', verdictTest ''first'']
          (suiteOn (unlines ['':first'', ''pass'', '':second'', ''pass''])))
     = Some [TestMethod ''first'' (TestCase 1 2 ''pass'') pass,
             TestMethod ''second'' (TestCase 1 4 ''pass'') pass]"
    by code_simp
  ultimately show ?thesis by simp
qed

text \<open>
  C6 (amended): registration puts each new test in front of the shared list, so the
  list that \<open>all\<close> passes to \<open>runTests\<close> is in reverse order of registration; but \<open>all\<close>
  calls the tests in the order in which their blocks stand in the test data stream:
  every call of a test method is a call of the test whose name was read last from the
  stream.  The order of the registry does not show in the result: when no two
  registered tests share a name, \<open>all\<close> gives the same result for every order of the
  same tests.
\<close>

theorem all_runs_in_stream_order:
  "registerTest test (tests, True) = Some (test # tests, True)
   \<and> registerTest test ([], False) = Some ([test], True)
   \<and> (TestSuite_all registry ts = Some tsRun \<longrightarrow> followsStream None (newEvents ts tsRun))
   \<and> (distinct (map name registry) \<and> distinct (map name permuted) \<and> set permuted = set registry
        \<longrightarrow> TestSuite_all permuted ts = TestSuite_all registry ts)"
proof (intro conjI impI)
  show "registerTest test (tests, True) = Some (test # tests, True)"
    "registerTest test ([], False) = Some ([test], True)"
    by (simp_all add: registerTest_def)
next
  assume "TestSuite_all registry ts = Some tsRun"
  then obtain ts2 where r: "runTests registry registry (emits [LogHeader] (prepared ts)) = Some ts2"
    and e: "tsRun = emits [LogFooter] ts2"
    by (auto simp: TestSuite_all_eq split: if_splits)
  have "trace tsRun = trace ts @ (LogHeader # newEvents (emits [LogHeader] (prepared ts)) ts2 @ [LogFooter])"
    using runTests_counts(1) [OF r] e by simp
  from newEvents_eq [OF this] runTests_followsStream [OF r, of None]
  show "followsStream None (newEvents ts tsRun)"
    using followsStream_footer [of None "newEvents (emits [LogHeader] (prepared ts)) ts2"] by simp
next
  assume a: "distinct (map name registry) \<and> distinct (map name permuted) \<and> set permuted = set registry"
  then have g: "\<forall>n. getTest n permuted = getTest n registry"
    using getTest_permuted [of permuted registry] by simp
  from a have n: "(permuted = []) = (registry = [])"
    by (metis set_empty)
  from runTests_registry [OF n g n] n
  show "TestSuite_all permuted ts = TestSuite_all registry ts"
    by (simp add: TestSuite_all_eq assertInvariants_def)
qed

theorem all_runs_in_stream_order_witness:
  "TestSuite_all [verdictTest ''second'', verdictTest ''first'']
      (suiteOn (unlines ['':first'', ''pass'', '':second'', ''pass''])) \<noteq> None
   \<and> distinct (map name [verdictTest ''second'', verdictTest ''first''])
   \<and> followsStream None
        (newEvents (suiteOn (unlines ['':first'', ''pass'', '':second'', ''pass'']))
           (the (TestSuite_all [verdictTest ''second'', verdictTest ''first'']
                  (suiteOn (unlines ['':first'', ''pass'', '':second'', ''pass''])))))
   \<and> TestSuite_all [verdictTest ''first'', verdictTest ''second'']
        (suiteOn (unlines ['':first'', ''pass'', '':second'', ''pass'']))
     = TestSuite_all [verdictTest ''second'', verdictTest ''first'']
        (suiteOn (unlines ['':first'', ''pass'', '':second'', ''pass'']))"
proof -
  let ?R = "[verdictTest ''second'', verdictTest ''first'']"
  let ?P = "[verdictTest ''first'', verdictTest ''second'']"
  let ?S = "suiteOn (unlines ['':first'', ''pass'', '':second'', ''pass''])"
  have a: "TestSuite_all ?R ?S = Some (the (TestSuite_all ?R ?S))" by code_simp
  have na: "TestSuite_all ?R ?S \<noteq> None" by code_simp
  have d: "distinct (map name ?R)" "distinct (map name ?P)"
    by (simp_all add: verdictTest_def)
  have s: "set ?P = set ?R" by auto
  note t = all_runs_in_stream_order [where registry = "?R" and permuted = "?P" and ts = "?S"
      and tsRun = "the (TestSuite_all ?R ?S)"]
  from t a have 1: "followsStream None (newEvents ?S (the (TestSuite_all ?R ?S)))"
    by blast
  from t d s have 2: "TestSuite_all ?P ?S = TestSuite_all ?R ?S"
    by blast
  from na d(1) 1 2 show ?thesis by blast
qed

section \<open>Counters that wrap around\<close>

text \<open>A block of lines that hold nothing but the words \<open>pass\<close> and \<open>fail\<close>, run by
  \<open>verdictTest\<close>: the counters after the block.\<close>

lemma verdict_line:
  assumes "l = ''pass'' \<or> l = ''fail''"
  shows "newline \<notin> set l" "startOfData (cstr l) = l" "\<not> isComment l" "\<not> isTestName l" "l \<noteq> []"
  using assms
  by (auto simp: startOfData_def cstr_def isComment_def isTestName_def isspace_def newline_def NUL_def)

lemma readTestCase_verdict_line:
  assumes "good (dataStream td)" "lastLineRead td = None"
    "l = ''pass'' \<or> l = ''fail''" "unread (dataStream td) = unlines (l # ls)"
  shows "readTestCase td =
           Some (Some l, td\<lparr>dataStream := (dataStream td)\<lparr>unread := unlines ls\<rparr>,
                            lineCounter := lineCounter td + 1\<rparr>)"
proof -
  note v = verdict_line [OF assms(3)]
  have u: "unread (dataStream td) = unlines [] @ lineThen l (Some (unlines ls))"
    using assms(4) by (simp add: unlines_def lineThen_def)
  have "dropWhile isspace (cstr l) = l"
    using v(2) by (simp add: startOfData_def)
  with readTestCase_data_line [OF assms(1,2) _ v(1) _ _ _ u] v show ?thesis
    by (simp add: streamAfter_def)
qed

lemma readTestCase_no_line:
  assumes "good (dataStream td)" "lastLineRead td = None" "unread (dataStream td) = []"
  shows "readTestCase td =
           Some (None, td\<lparr>dataStream := (dataStream td)\<lparr>rdstate := Some (ending (dataStream td))\<rparr>\<rparr>)"
  using assms by (simp add: readTestCase_def readLine_eq Let_def)

lemma verdictTest_simps [simp]:
  "name (verdictTest nm) = nm"
  "testMethod (verdictTest nm) h (TestCase k lc ''pass'') = Return pass"
  "testMethod (verdictTest nm) h (TestCase k lc ''fail'') = Return fail"
  by (simp_all add: verdictTest_def)

lemma runTest_loop_verdicts:
  "good (dataStream (testData ts)) \<Longrightarrow> lastLineRead (testData ts) = None \<Longrightarrow>
   unread (dataStream (testData ts)) = unlines ls \<Longrightarrow>
   \<forall>l\<in>set (c # ls). l = ''pass'' \<or> l = ''fail'' \<Longrightarrow>
   \<not> abortTest v \<Longrightarrow> testCaseData v = Some c \<Longrightarrow>
   \<exists>v' ts'. runTest_loop (verdictTest nm) v ts = Some (v', ts') \<and>
      testCaseNum v' = testCaseNum v + of_nat (Suc (length ls)) \<and>
      numFailedTestCases v' =
        numFailedTestCases v + of_nat (length (filter (\<lambda>l. l = ''fail'') (c # ls))) \<and>
      abortAll v' = abortAll v"
proof (induction ls arbitrary: c v ts)
  case Nil
  have st: "testCaseData v \<noteq> None" using Nil.prems(6) by simp
  let ?tc = "TestCase (testCaseNum v + 1) (ucast (lineCounter (testData ts))) c"
  have ra: "runAction (testMethod (verdictTest nm) (trace ts) ?tc) ts =
      (if c = ''pass'' then pass else fail, ts)"
    using Nil.prems(4) by auto
  have rc: "readTestCase (testData ts) =
      Some (None, (testData ts)\<lparr>dataStream := (dataStream (testData ts))
          \<lparr>rdstate := Some (ending (dataStream (testData ts)))\<rparr>\<rparr>)"
    using Nil.prems(1,2,3) by (intro readTestCase_no_line) (simp_all add: unlines_def)
  let ?r = "if c = ''pass'' then pass else fail"
  let ?v1 = "v\<lparr>testCaseNum := testCaseNum v + 1,
                       abortTest := (abortTest v \<or> ?r = abortThisTest \<or> ?r = abortAllTests),
                       abortAll := (abortAll v \<or> ?r = abortAllTests),
                       numFailedTestCases := numFailedTestCases v + (if ?r = pass then 0 else 1),
                       testCaseData := None\<rparr>"
  let ?ts1 = "ts\<lparr>testData := (testData ts)\<lparr>dataStream := (dataStream (testData ts))
                             \<lparr>rdstate := Some (ending (dataStream (testData ts)))\<rparr>\<rparr>,
                         trace := trace ts @ TestMethod (name (verdictTest nm)) ?tc ?r #
                                  verdictEvents (name (verdictTest nm)) ?tc ?r @ [ReadTestCase None]\<rparr>"
  have b: "runTest_body (verdictTest nm) v ts = Some (?v1, ?ts1)"
    using ra rc Nil.prems(6) by (simp add: runTest_body_eq Let_def)
  have l: "runTest_loop (verdictTest nm) ?v1 ?ts1 = Some (?v1, ?ts1)"
    by (rule runTest_loop_stop) simp
  have "runTest_loop (verdictTest nm) v ts = Some (?v1, ?ts1)"
    unfolding runTest_loop_step [OF Nil.prems(5) st] b using l by simp
  moreover have "testCaseNum ?v1 = testCaseNum v + of_nat (Suc (length ([]::string list)))"
    by simp
  moreover have "numFailedTestCases ?v1 =
        numFailedTestCases v + of_nat (length (filter (\<lambda>l. l = ''fail'') [c]))"
    using Nil.prems(4) by auto
  moreover have "abortAll ?v1 = abortAll v"
    by auto
  ultimately show ?case by blast
next
  case (Cons l ls)
  have st: "testCaseData v \<noteq> None" using Cons.prems(6) by simp
  let ?tc = "TestCase (testCaseNum v + 1) (ucast (lineCounter (testData ts))) c"
  have cc: "c = ''pass'' \<or> c = ''fail''" and ll: "l = ''pass'' \<or> l = ''fail''"
    and rest: "\<forall>l\<in>set (l # ls). l = ''pass'' \<or> l = ''fail''"
    using Cons.prems(4) by simp_all
  have ra: "runAction (testMethod (verdictTest nm) (trace ts) ?tc) ts =
      (if c = ''pass'' then pass else fail, ts)"
    using cc by (elim disjE) simp_all
  let ?td1 = "(testData ts)\<lparr>dataStream := (dataStream (testData ts))\<lparr>unread := unlines ls\<rparr>,
                            lineCounter := lineCounter (testData ts) + 1\<rparr>"
  have rc: "readTestCase (testData ts) = Some (Some l, ?td1)"
    by (rule readTestCase_verdict_line [OF Cons.prems(1,2) ll Cons.prems(3)])
  let ?r = "if c = ''pass'' then pass else fail"
  let ?v1 = "v\<lparr>testCaseNum := testCaseNum v + 1,
                       abortTest := (abortTest v \<or> ?r = abortThisTest \<or> ?r = abortAllTests),
                       abortAll := (abortAll v \<or> ?r = abortAllTests),
                       numFailedTestCases := numFailedTestCases v + (if ?r = pass then 0 else 1),
                       testCaseData := Some l\<rparr>"
  let ?ts1 = "ts\<lparr>testData := ?td1,
                         trace := trace ts @ TestMethod (name (verdictTest nm)) ?tc ?r #
                                  verdictEvents (name (verdictTest nm)) ?tc ?r @ [ReadTestCase (Some l)]\<rparr>"
  have b: "runTest_body (verdictTest nm) v ts = Some (?v1, ?ts1)"
    using ra rc Cons.prems(6) by (simp add: runTest_body_eq Let_def)
  have "\<exists>v' ts'. runTest_loop (verdictTest nm) ?v1 ?ts1 = Some (v', ts') \<and>
      testCaseNum v' = testCaseNum ?v1 + of_nat (Suc (length ls)) \<and>
      numFailedTestCases v' =
        numFailedTestCases ?v1 + of_nat (length (filter (\<lambda>l. l = ''fail'') (l # ls))) \<and>
      abortAll v' = abortAll ?v1"
  proof (rule Cons.IH)
    show "\<forall>l\<in>set (l # ls). l = ''pass'' \<or> l = ''fail''" by (rule rest)
  qed (use Cons.prems(1,2,5) in \<open>simp_all add: good_def\<close>)
  then obtain v' ts' where l: "runTest_loop (verdictTest nm) ?v1 ?ts1 = Some (v', ts')"
    and n: "testCaseNum v' = testCaseNum ?v1 + of_nat (Suc (length ls))"
      "numFailedTestCases v' =
        numFailedTestCases ?v1 + of_nat (length (filter (\<lambda>l. l = ''fail'') (l # ls)))"
      "abortAll v' = abortAll ?v1"
    by blast
  have "runTest_loop (verdictTest nm) v ts = Some (v', ts')"
    unfolding runTest_loop_step [OF Cons.prems(5) st] b using l by simp
  moreover have "testCaseNum v' = testCaseNum v + of_nat (Suc (length (l # ls)))"
    using n(1) by simp
  moreover have "numFailedTestCases v' =
        numFailedTestCases v + of_nat (length (filter (\<lambda>l. l = ''fail'') (c # l # ls)))"
    using n(2) cc by (elim disjE) simp_all
  moreover have "abortAll v' = abortAll v"
    using n(3) by auto
  ultimately show ?case by blast
qed


lemma runTest_verdicts:
  assumes "assertInvariants registry ts" "good (dataStream (testData ts))"
    "lastLineRead (testData ts) = None"
    "unread (dataStream (testData ts)) = unlines (c # ls)"
    "\<forall>l\<in>set (c # ls). l = ''pass'' \<or> l = ''fail''"
  shows "(runTest registry (verdictTest nm) ts = None) =
         (\<not> (of_nat (length (filter (\<lambda>l. l = ''fail'') (c # ls))) \<le> (of_nat (Suc (length ls)) :: uint)))"
proof -
  have cc: "c = ''pass'' \<or> c = ''fail''" using assms(5) by simp
  let ?td = "(testData ts)\<lparr>dataStream := (dataStream (testData ts))\<lparr>unread := unlines ls\<rparr>,
                            lineCounter := lineCounter (testData ts) + 1\<rparr>"
  have rc: "readTestCase (testData ts) = Some (Some c, ?td)"
    by (rule readTestCase_verdict_line [OF assms(2,3) cc assms(4)])
  let ?ts1 = "emit (LogTestHeader (name (verdictTest nm)))
                (emit (ReadTestCase (Some c)) (ts\<lparr>testData := ?td\<rparr>))"
  let ?v = "\<lparr>testCaseNum = 0, abortTest = False, abortAll = False,
              numFailedTestCases = 0, testCaseData = Some c\<rparr>"
  have "\<exists>v' ts'. runTest_loop (verdictTest nm) ?v ?ts1 = Some (v', ts') \<and>
      testCaseNum v' = testCaseNum ?v + of_nat (Suc (length ls)) \<and>
      numFailedTestCases v' =
        numFailedTestCases ?v + of_nat (length (filter (\<lambda>l. l = ''fail'') (c # ls))) \<and>
      abortAll v' = abortAll ?v"
  proof (rule runTest_loop_verdicts)
    show "\<forall>l\<in>set (c # ls). l = ''pass'' \<or> l = ''fail''" by (rule assms(5))
  qed (use assms(2,3) in \<open>simp_all add: good_def emit_def\<close>)
  then obtain v' ts' where l: "runTest_loop (verdictTest nm) ?v ?ts1 = Some (v', ts')"
    and n: "testCaseNum v' = of_nat (Suc (length ls))"
      "numFailedTestCases v' = of_nat (length (filter (\<lambda>l. l = ''fail'') (c # ls)))"
    by auto
  show ?thesis
    unfolding runTest_def using assms(1) rc l n
    by (simp add: logTestFooter_def assert_def Let_def)
qed

lemma readTestName_marker:
  assumes "good (dataStream td)" "lastLineRead td = None"
    "unread (dataStream td) = unlines ('':t'' # ls)"
  shows "readTestName td =
           (Some ''t'', td\<lparr>dataStream := (dataStream td)\<lparr>unread := unlines ls\<rparr>,
                           lineCounter := lineCounter td + 1\<rparr>)"
proof -
  have u: "unread (dataStream td) = '':t'' @ newline # unlines ls"
    using assms(3) by (simp add: unlines_def)
  have n: "newline \<notin> set '':t''" by (simp add: newline_def)
  show ?thesis
    unfolding readTestName_def using assms(2) readLine_line [OF assms(1) n u]
    by (simp add: readTestName_loop_Some cstr_def NUL_def isspace_def isTestName_def
          extractTestName_def)
qed

definition wrapLines :: "nat \<Rightarrow> string list" where
  "wrapLines n = ''pass'' # replicate n ''fail''"

lemma wrapLines_verdicts: "\<forall>l\<in>set (wrapLines n). l = ''pass'' \<or> l = ''fail''"
  by (simp add: wrapLines_def)

lemma wrapLines_failures: "length (filter (\<lambda>l. l = ''fail'') (wrapLines n)) = n"
  by (simp add: wrapLines_def)

lemma runTests_wrapLines:
  assumes "assertInvariants [verdictTest ''t''] ts" "good (dataStream (testData ts))"
    "lastLineRead (testData ts) = None"
    "unread (dataStream (testData ts)) = unlines ('':t'' # wrapLines n)"
    "\<not> ((of_nat n :: uint) \<le> of_nat (Suc n))"
  shows "runTests [verdictTest ''t''] [verdictTest ''t''] ts = None"
proof -
  let ?td = "(testData ts)\<lparr>dataStream := (dataStream (testData ts))\<lparr>unread := unlines (wrapLines n)\<rparr>,
                            lineCounter := lineCounter (testData ts) + 1\<rparr>"
  let ?ts1 = "emit (ReadTestName (Some ''t'')) (ts\<lparr>testData := ?td\<rparr>)"
  have rn: "readTestName (testData ts) = (Some ''t'', ?td)"
    by (rule readTestName_marker [OF assms(2,3,4)])
  have inv: "assertInvariants [verdictTest ''t''] ?ts1"
    using assms(1) by (simp add: assertInvariants_def emit_def)
  have "(runTest [verdictTest ''t''] (verdictTest ''t'') ?ts1 = None) =
         (\<not> (of_nat (length (filter (\<lambda>l. l = ''fail'') (''pass'' # replicate n ''fail'')))
              \<le> (of_nat (Suc (length (replicate n ''fail''))) :: uint)))"
  proof (rule runTest_verdicts [OF inv])
    show "\<forall>l\<in>set (''pass'' # replicate n ''fail''). l = ''pass'' \<or> l = ''fail''"
      by simp
  qed (use assms(2,3) in \<open>simp_all add: good_def emit_def wrapLines_def\<close>)
  then have rt: "runTest [verdictTest ''t''] (verdictTest ''t'') ?ts1 = None"
    using assms(5) by simp
  have g: "getTest ''t'' [verdictTest ''t''] = Some (verdictTest ''t'')"
    by simp
  have b: "runTests_body [verdictTest ''t''] [verdictTest ''t''] (False, Some ''t'') ?ts1 = None"
    unfolding runTests_body_def using g rt by simp
  have "runTests_loop [verdictTest ''t''] [verdictTest ''t''] (False, Some ''t'') ?ts1 = None"
    unfolding runTests_loop_step b by simp
  then show ?thesis
    unfolding runTests_def using assms(1) rn by simp
qed

lemma runTest_loop_wrapLines:
  "\<exists>v' ts'. runTest_loop (verdictTest ''t'')
        \<lparr>testCaseNum = 0, abortTest = False, abortAll = False,
         numFailedTestCases = 0, testCaseData = Some ''pass''\<rparr>
        (suiteOn (unlines (replicate n ''fail''))) = Some (v', ts') \<and>
      testCaseNum v' = of_nat (Suc n) \<and> numFailedTestCases v' = of_nat n"
proof -
  let ?v = "\<lparr>testCaseNum = 0, abortTest = False, abortAll = False,
              numFailedTestCases = 0, testCaseData = Some ''pass''\<rparr>"
  let ?ts = "suiteOn (unlines (replicate n ''fail''))"
  have "\<exists>v' ts'. runTest_loop (verdictTest ''t'') ?v ?ts = Some (v', ts') \<and>
      testCaseNum v' = testCaseNum ?v + of_nat (Suc (length (replicate n ''fail''))) \<and>
      numFailedTestCases v' =
        numFailedTestCases ?v +
        of_nat (length (filter (\<lambda>l. l = ''fail'') (''pass'' # replicate n ''fail''))) \<and>
      abortAll v' = abortAll ?v"
  proof (rule runTest_loop_verdicts)
    show "\<forall>l\<in>set (''pass'' # replicate n ''fail''). l = ''pass'' \<or> l = ''fail''"
      by simp
  qed (simp_all add: suiteOn_def good_def)
  then obtain v' ts' where "runTest_loop (verdictTest ''t'') ?v ?ts = Some (v', ts')"
    "testCaseNum v' = of_nat (Suc n)" "numFailedTestCases v' = of_nat n"
    by auto
  then show ?thesis by blast
qed

lemma wraps:
  "\<not> ((of_nat 4294967295 :: uint) \<le> of_nat (Suc 4294967295))"
  "(of_nat (Suc 4294967295) :: uint) = 0" "(of_nat 4294967295 :: uint) = 4294967295"
  by simp_all

text \<open>
  C1 (the failed count never exceeds the case count).  The counters of \<open>runTest\<close> are
  \<open>unsigned int\<close>s, so a block of 2^32 test cases, the first of which passes and all the
  others fail, leaves the loop of \<open>runTest\<close> with a case count of 0 and a failed count
  of 4294967295: the assertion \<open>numCases >= numFailedCases\<close> of \<open>logTestFooter\<close> fails,
  and \<open>TestSuite::all\<close> on a stream that holds this block does not return.
\<close>

theorem failed_count_exceeds_case_count_after_wrap:
  "TestSuite_all [verdictTest ''t'']
     (suiteOn (unlines ('':t'' # ''pass'' # replicate 4294967295 ''fail''))) = None
   \<and> (\<exists>v' ts'. runTest_loop (verdictTest ''t'')
          \<lparr>testCaseNum = 0, abortTest = False, abortAll = False,
           numFailedTestCases = 0, testCaseData = Some ''pass''\<rparr>
          (suiteOn (unlines (replicate 4294967295 ''fail''))) = Some (v', ts')
        \<and> testCaseNum v' = 0 \<and> numFailedTestCases v' = 4294967295)"
proof -
  let ?s = "suiteOn (unlines ('':t'' # wrapLines 4294967295))"
  have inv: "assertInvariants [verdictTest ''t''] ?s"
    by (simp add: assertInvariants_def suiteOn_def)
  let ?ts = "emits [LogHeader] (prepared ?s)"
  have "runTests [verdictTest ''t''] [verdictTest ''t''] ?ts = None"
  proof (rule runTests_wrapLines [OF _ _ _ _ wraps(1)])
    show "assertInvariants [verdictTest ''t''] ?ts"
      using inv by (simp add: assertInvariants_def)
  qed (simp_all add: suiteOn_def reset_def seekg0_def clear_def good_def)
  then have "TestSuite_all [verdictTest ''t''] ?s = None"
    using inv by (simp add: TestSuite_all_eq)
  then have a: "TestSuite_all [verdictTest ''t'']
     (suiteOn (unlines ('':t'' # ''pass'' # replicate 4294967295 ''fail''))) = None"
    unfolding wrapLines_def .
  from runTest_loop_wrapLines [of 4294967295] show ?thesis
    unfolding wraps(2,3) using a by blast
qed

section \<open>A property of every event of a run\<close>

text \<open>
  A property of every event of a run and of the events that follow it: \<open>eachEvent P es\<close>
  says that \<open>P e post\<close> holds wherever \<open>es\<close> is \<open>pre @ e # post\<close>.
\<close>

fun eachEvent :: "('a \<Rightarrow> 'a list \<Rightarrow> bool) \<Rightarrow> 'a list \<Rightarrow> bool" where
  "eachEvent P [] = True"
| "eachEvent P (e # es) = (P e es \<and> eachEvent P es)"

lemma eachEvent_iff: "eachEvent P es = (\<forall>pre e post. es = pre @ e # post \<longrightarrow> P e post)"
proof (induction es)
  case Nil
  then show ?case by simp
next
  case (Cons x es)
  show ?case
  proof
    assume a: "eachEvent P (x # es)"
    show "\<forall>pre e post. x # es = pre @ e # post \<longrightarrow> P e post"
    proof (intro allI impI)
      fix pre e post assume s: "x # es = pre @ e # post"
      show "P e post"
      proof (cases pre)
        case Nil
        with s a show ?thesis by simp
      next
        case (Cons y pre')
        with s have "es = pre' @ e # post" by simp
        with a Cons.IH show ?thesis by auto
      qed
    qed
  next
    assume a: "\<forall>pre e post. x # es = pre @ e # post \<longrightarrow> P e post"
    have "P x es" using a [rule_format, of "[]" x es] by simp
    moreover have "\<forall>pre e post. es = pre @ e # post \<longrightarrow> P e post"
    proof (intro allI impI)
      fix pre e post assume "es = pre @ e # post"
      then have "x # es = (x # pre) @ e # post" by simp
      then show "P e post" by (rule a [rule_format])
    qed
    ultimately show "eachEvent P (x # es)" using Cons.IH by simp
  qed
qed

lemma eachEvent_append:
  "eachEvent P (xs @ ys) = (eachEvent (\<lambda>e post. P e (post @ ys)) xs \<and> eachEvent P ys)"
  by (induction xs) auto

lemma eachEvent_vacuous: "(\<And>e post. e \<in> set xs \<Longrightarrow> P e post) \<Longrightarrow> eachEvent P xs"
  by (induction xs) auto

lemma runTests_loop_eachEvent:
  assumes l: "runTests_loop registry tests st ts = Some ts'" and st: "\<not> fst st"
    and stop: "P (ReadTestName None) []"
    and unknown: "\<And>n r rest. getTest n tests = None \<Longrightarrow> P (ReadTestName (Some n)) (ReadTestName r # rest)"
    and block: "\<And>n test d body goOn tail.
       getTest n tests = Some test \<Longrightarrow> list_all inBlock body \<Longrightarrow>
       (goOn \<and> \<not> list_ex isAbort body) \<or>
       (\<exists>pre ub tc res r.
         body = pre @ caseEvents (name test) ub tc res r \<and> list_all isUser ub \<and>
         \<not> list_ex isAbort pre \<and> (res = abortThisTest \<or> res = abortAllTests) \<and>
         goOn = (res = abortThisTest)) \<Longrightarrow>
       d = None \<longrightarrow> body = [] \<Longrightarrow>
       \<forall>caseText. d = Some caseText \<longrightarrow>
         (\<exists>ub lc res rest. body = ub @ TestMethod (name test) (TestCase 1 lc caseText) res # rest \<and>
            list_all isUser ub) \<Longrightarrow>
       (if goOn then \<exists>r rest. tail = ReadTestName r # rest else tail = []) \<Longrightarrow>
       eachEvent (\<lambda>e post. P e (post @ tail)) (ReadTestName (Some n) # blockEvents (name test) d body)"
  shows "eachEvent P (ReadTestName (snd st) # newEvents ts ts')"
proof -
  have "\<not> fst st \<longrightarrow> eachEvent P (ReadTestName (snd st) # newEvents ts ts')"
    using l
  proof (induction rule: runTests_loop_induct)
    case (stop st ts)
    then show ?case using assms(3) by (auto simp: newEvents_self)
  next
    case (step n ts st1 ts1 ts')
    from step(1,2) show ?case
    proof (cases rule: runTests_loop_stepE)
      case (unknown r)
      have "eachEvent P (ReadTestName r # newEvents ts1 ts')"
        using step(3) unknown(2) by simp
      moreover have "P (ReadTestName (Some n)) (ReadTestName r # newEvents ts1 ts')"
        by (rule assms(4) [OF unknown(1)])
      ultimately show ?thesis using unknown(3) by simp
    next
      case (block test goOn d body)
      let ?tail = "if goOn then ReadTestName (snd st1) # newEvents ts1 ts' else []"
      have t: "eachEvent P ?tail"
      proof (cases goOn)
        case True
        then have "\<not> fst st1" using block(2) by (cases st1) auto
        with step(3) True show ?thesis by simp
      next
        case False
        then show ?thesis by simp
      qed
      have "eachEvent (\<lambda>e post. P e (post @ ?tail))
              (ReadTestName (Some n) # blockEvents (name test) d body)"
        by (rule assms(5) [OF block(1) block(7) block(8) block(9) block(10)]) simp
      then have "eachEvent P ((ReadTestName (Some n) # blockEvents (name test) d body) @ ?tail)"
        using t by (simp only: eachEvent_append simp_thms)
      then show ?thesis using block(3) by simp
    qed
  qed
  with st show ?thesis by simp
qed

lemma runTests_eachEvent:
  assumes l: "runTests registry tests ts = Some ts'"
    and none: "P NoValidTestNames []"
    and stop: "P (ReadTestName None) []"
    and unknown: "\<And>n r rest. getTest n tests = None \<Longrightarrow> P (ReadTestName (Some n)) (ReadTestName r # rest)"
    and block: "\<And>n test d body goOn tail.
       getTest n tests = Some test \<Longrightarrow> list_all inBlock body \<Longrightarrow>
       (goOn \<and> \<not> list_ex isAbort body) \<or>
       (\<exists>pre ub tc res r.
         body = pre @ caseEvents (name test) ub tc res r \<and> list_all isUser ub \<and>
         \<not> list_ex isAbort pre \<and> (res = abortThisTest \<or> res = abortAllTests) \<and>
         goOn = (res = abortThisTest)) \<Longrightarrow>
       d = None \<longrightarrow> body = [] \<Longrightarrow>
       \<forall>caseText. d = Some caseText \<longrightarrow>
         (\<exists>ub lc res rest. body = ub @ TestMethod (name test) (TestCase 1 lc caseText) res # rest \<and>
            list_all isUser ub) \<Longrightarrow>
       (if goOn then \<exists>r rest. tail = ReadTestName r # rest else tail = []) \<Longrightarrow>
       eachEvent (\<lambda>e post. P e (post @ tail)) (ReadTestName (Some n) # blockEvents (name test) d body)"
  shows "eachEvent P (newEvents ts ts')"
  using l
proof (cases rule: runTests_SomeE)
  case none
  then have "newEvents ts ts' = [NoValidTestNames]"
    by (simp add: newEvents_def emit_def)
  with assms(2) show ?thesis by simp
next
  case (some r td)
  let ?ts1 = "emit (ReadTestName r) (ts\<lparr>testData := td\<rparr>)"
  have "eachEvent P (ReadTestName (snd (False, r)) # newEvents ?ts1 ts')"
    by (rule runTests_loop_eachEvent [OF some(4) _ stop unknown block]) simp_all
  moreover have "newEvents ts ts' = [ReadTestName r] @ newEvents ?ts1 ts'"
    by (rule newEvents_append [OF _ runTests_loop_trace [OF some(4)]]) (simp add: emit_def)
  ultimately show ?thesis by simp
qed

section \<open>Blocks that are not selected\<close>








section \<open>Requested names that resolve\<close>





lemma eachEvent_mono:
  "(\<And>e post. P e post \<Longrightarrow> Q e post) \<Longrightarrow> eachEvent P es \<Longrightarrow> eachEvent Q es"
  by (induction es) auto











section \<open>Aborted tests and aborted runs\<close>

text \<open>
  What follows the call of a test method that returns \<open>abortThisTest\<close> or
  \<open>abortAllTests\<close>: the failure is logged, then the notice of the abort; \<open>readTestCase()\<close>
  is called once more (the loop of \<open>runTest\<close> reads the next test case before it tests
  its flags), and the footer of the test is logged.  After \<open>abortAllTests\<close> this is the
  end of \<open>runTests\<close>; after \<open>abortThisTest\<close> the next event is a call of \<open>readTestName()\<close>.
\<close>

lemma not_abort_vacuous:
  assumes "\<forall>e\<in>set xs. \<not> isAbort e"
  shows "eachEvent (\<lambda>e post. \<forall>nm tc res. e = TestMethod nm tc res \<longrightarrow>
            res = abortThisTest \<or> res = abortAllTests \<longrightarrow> R nm tc res post) xs"
proof (rule eachEvent_vacuous)
  fix e :: event and post
  assume "e \<in> set xs"
  with assms have "\<not> isAbort e" by blast
  then show "\<forall>nm tc res. e = TestMethod nm tc res \<longrightarrow>
            res = abortThisTest \<or> res = abortAllTests \<longrightarrow> R nm tc res post"
    by auto
qed

lemma verdictEvents_abort:
  "res = abortThisTest \<or> res = abortAllTests \<Longrightarrow>
   verdictEvents nm tc res = [LogTestCaseFailed nm tc, abortNotice nm res]"
  by (auto simp: verdictEvents_def abortNotice_def)

lemma abort_then_footer:
  assumes "runTests registry tests ts = Some ts'"
  shows "eachEvent (\<lambda>e post. \<forall>nm tc res. e = TestMethod nm tc res \<longrightarrow>
            res = abortThisTest \<or> res = abortAllTests \<longrightarrow>
            (\<exists>r k f rest. post = LogTestCaseFailed nm tc # abortNotice nm res # ReadTestCase r #
                 LogTestFooter nm k f # rest \<and>
               (if res = abortAllTests then rest = []
                else \<exists>r' rest'. rest = ReadTestName r' # rest')))
          (newEvents ts ts')"
  using assms
proof (rule runTests_eachEvent)
  fix n test d body goOn and tail :: "event list"
  assume g: "getTest n tests = Some test" and b: "list_all inBlock body"
    and sh: "(goOn \<and> \<not> list_ex isAbort body) \<or>
       (\<exists>pre ub tc res r.
         body = pre @ caseEvents (name test) ub tc res r \<and> list_all isUser ub \<and>
         \<not> list_ex isAbort pre \<and> (res = abortThisTest \<or> res = abortAllTests) \<and>
         goOn = (res = abortThisTest))"
    and tl: "if goOn then \<exists>r rest. tail = ReadTestName r # rest else tail = []"
  let ?R = "\<lambda>tail nm tc res post.
            (\<exists>r k f rest. post @ tail = LogTestCaseFailed nm tc # abortNotice nm res # ReadTestCase r #
                 LogTestFooter nm k f # rest \<and>
               (if res = abortAllTests then rest = []
                else \<exists>r' rest'. rest = ReadTestName r' # rest'))"
  let ?Q = "\<lambda>tail e post. \<forall>nm tc res. e = TestMethod nm tc res \<longrightarrow>
            res = abortThisTest \<or> res = abortAllTests \<longrightarrow> ?R tail nm tc res post"
  let ?F = "LogTestFooter (name test) (of_nat (length (filter isTestMethod body)))
          (of_nat (length (filter isFailure body)))"
  from sh show "eachEvent (?Q tail) (ReadTestName (Some n) # blockEvents (name test) d body)"
  proof (rule disjE)
    assume "goOn \<and> \<not> list_ex isAbort body"
    then have "\<forall>e\<in>set (ReadTestName (Some n) # blockEvents (name test) d body). \<not> isAbort e"
      by (auto simp: blockEvents_def list_ex_iff)
    then show ?thesis by (rule not_abort_vacuous)
  next
    assume "\<exists>pre ub tc res r.
         body = pre @ caseEvents (name test) ub tc res r \<and> list_all isUser ub \<and>
         \<not> list_ex isAbort pre \<and> (res = abortThisTest \<or> res = abortAllTests) \<and>
         goOn = (res = abortThisTest)"
    then obtain pre ub tc res r where
      body: "body = pre @ caseEvents (name test) ub tc res r" and ub: "list_all isUser ub"
      and pre: "\<not> list_ex isAbort pre" and res: "res = abortThisTest \<or> res = abortAllTests"
      and goOn: "goOn = (res = abortThisTest)"
      by blast
    let ?X = "ReadTestName (Some n) # ReadTestCase d # LogTestHeader (name test) # pre @ ub"
    let ?V = "[LogTestCaseFailed (name test) tc, abortNotice (name test) res, ReadTestCase r, ?F]"
    have split: "ReadTestName (Some n) # blockEvents (name test) d body =
        ?X @ TestMethod (name test) tc res # ?V"
      by (simp add: blockEvents_def body caseEvents_def verdictEvents_abort [OF res])
    have x: "\<forall>e\<in>set ?X. \<not> isAbort e"
      using pre ub by (auto simp: list_ex_iff list_all_iff)
    have v: "\<forall>e\<in>set ?V. \<not> isAbort e"
      by (simp add: isAbort_def abortNotice_def)
    have 1: "eachEvent (?Q ((TestMethod (name test) tc res # ?V) @ tail)) ?X"
      using x by (rule not_abort_vacuous)
    have 2: "eachEvent (?Q tail) ?V"
      using v by (rule not_abort_vacuous)
    have 3: "?Q tail (TestMethod (name test) tc res) ?V"
      using tl goOn res by auto
    have "eachEvent (?Q tail) (?X @ TestMethod (name test) tc res # ?V)"
      unfolding eachEvent_append [of "?Q tail" ?X] using 1 2 3 by simp
    then show ?thesis unfolding split .
  qed
qed simp_all


text \<open>The public operations are \<open>runTests\<close> between a header and a footer.\<close>

lemma operation_runTests:
  assumes "(tests = registry \<and> TestSuite_all registry ts = Some tsRun)
     \<or> (tests = selection registry [testName] \<and> TestSuite_one registry testName ts = Some tsRun)
     \<or> (tests = selection registry testNames \<and> TestSuite_group registry testNames ts = Some tsRun)
     \<or> (tests = selection registry (firstTestName # argList) \<and>
          TestSuite_group_va registry firstTestName argList ts = Some tsRun)"
  shows "\<exists>hdr tsEnd. runTests registry tests (emits hdr (prepared ts)) = Some tsEnd \<and>
           tsRun = emits [LogFooter] tsEnd \<and>
           (\<forall>e\<in>set hdr. e = LogHeader \<or> (\<exists>n. e = LogUnknownTestName n))"
  using assms
proof (elim disjE conjE)
  assume "tests = registry" "TestSuite_all registry ts = Some tsRun"
  then have "\<exists>tsEnd. runTests registry tests (emits [LogHeader] (prepared ts)) = Some tsEnd \<and>
           tsRun = emits [LogFooter] tsEnd"
    by (auto simp: TestSuite_all_eq split: if_splits)
  then show ?thesis by (intro exI [of _ "[LogHeader]"]) simp
next
  assume "tests = selection registry [testName]" "TestSuite_one registry testName ts = Some tsRun"
  then have "\<exists>tsEnd. runTests registry tests
             (emits (LogHeader # map LogUnknownTestName (unknownNames registry [testName])) (prepared ts))
               = Some tsEnd \<and> tsRun = emits [LogFooter] tsEnd"
    by (auto simp: TestSuite_one_eq split: if_splits)
  then show ?thesis
    by (intro exI [of _ "LogHeader # map LogUnknownTestName (unknownNames registry [testName])"]) auto
next
  assume "tests = selection registry testNames" "TestSuite_group registry testNames ts = Some tsRun"
  then have "\<exists>tsEnd. runTests registry tests
             (emits (LogHeader # map LogUnknownTestName (unknownNames registry testNames)) (prepared ts))
               = Some tsEnd \<and> tsRun = emits [LogFooter] tsEnd"
    by (auto simp: TestSuite_group_eq split: if_splits)
  then show ?thesis
    by (intro exI [of _ "LogHeader # map LogUnknownTestName (unknownNames registry testNames)"]) auto
next
  assume "tests = selection registry (firstTestName # argList)"
    "TestSuite_group_va registry firstTestName argList ts = Some tsRun"
  then have "\<exists>tsEnd. runTests registry tests
             (emits (LogHeader # map LogUnknownTestName (unknownNames registry (firstTestName # argList)))
                (prepared ts))
               = Some tsEnd \<and> tsRun = emits [LogFooter] tsEnd"
    by (auto simp: TestSuite_group_va_eq split: if_splits)
  then show ?thesis
    by (intro exI [of _ "LogHeader # map LogUnknownTestName (unknownNames registry (firstTestName # argList))"]) auto
qed

lemma operation_eachEvent:
  assumes op: "\<exists>hdr tsEnd. runTests registry tests (emits hdr (prepared ts)) = Some tsEnd \<and>
           tsRun = emits [LogFooter] tsEnd \<and>
           (\<forall>e\<in>set hdr. e = LogHeader \<or> (\<exists>n. e = LogUnknownTestName n))"
    and run: "\<And>ts0 tsEnd. runTests registry tests ts0 = Some tsEnd \<Longrightarrow> eachEvent P (newEvents ts0 tsEnd)"
    and app: "\<And>e post. P e post \<Longrightarrow> Q e (post @ [LogFooter])"
    and other: "\<And>e post. e = LogHeader \<or> (\<exists>n. e = LogUnknownTestName n) \<or> e = LogFooter \<Longrightarrow> Q e post"
    and split: "trace tsRun = trace ts @ pre @ e # post"
  shows "Q e post"
proof -
  from op obtain hdr tsEnd where
    r: "runTests registry tests (emits hdr (prepared ts)) = Some tsEnd"
    and f: "tsRun = emits [LogFooter] tsEnd"
    and h: "\<forall>e\<in>set hdr. e = LogHeader \<or> (\<exists>n. e = LogUnknownTestName n)"
    by blast
  let ?mid = "newEvents (emits hdr (prepared ts)) tsEnd"
  have tr: "trace tsRun = trace ts @ hdr @ ?mid @ [LogFooter]"
    using runTests_counts(1) [OF r] by (simp add: f)
  have "eachEvent (\<lambda>e post. Q e (post @ [LogFooter])) ?mid"
    using app run [OF r] by (rule eachEvent_mono)
  moreover have "eachEvent Q [LogFooter]"
    using other by simp
  ultimately have m: "eachEvent Q (?mid @ [LogFooter])"
    by (simp only: eachEvent_append simp_thms)
  have "eachEvent (\<lambda>e post. Q e (post @ ?mid @ [LogFooter])) hdr"
  proof (rule eachEvent_vacuous)
    fix e :: event and post
    assume "e \<in> set hdr"
    with h have "e = LogHeader \<or> (\<exists>n. e = LogUnknownTestName n)" by blast
    then show "Q e (post @ ?mid @ [LogFooter])" using other by blast
  qed
  with m have "eachEvent Q (hdr @ ?mid @ [LogFooter])"
    by (simp only: eachEvent_append simp_thms)
  moreover have "hdr @ ?mid @ [LogFooter] = pre @ e # post"
    using tr split by simp
  ultimately show ?thesis
    by (simp only: eachEvent_iff)
qed

text \<open>
  C2: \<open>abortAllTests\<close> ends the whole run.  In every run of \<open>all\<close>, \<open>one\<close> or \<open>group\<close>
  (either overload) that returns, the call of a test method that returns
  \<open>abortAllTests\<close> is followed by exactly five events: the failure of the test case is
  logged, the notice that all tests are aborted is logged, \<open>readTestCase()\<close> is called
  once more (the loop of \<open>runTest\<close> reads the next test case before it tests its
  flags; the test case it reads is not run), the footer of the test is logged and the
  footer of the run is logged.  So no test method is called again, neither for the
  rest of the block nor for a later block, and \<open>readTestName()\<close> is not called again.
\<close>

theorem abortAllTests_ends_the_run:
  "(TestSuite_all registry ts = Some tsRun
     \<or> TestSuite_one registry testName ts = Some tsRun
     \<or> TestSuite_group registry testNames ts = Some tsRun
     \<or> TestSuite_group_va registry firstTestName argList ts = Some tsRun)
   \<and> trace tsRun = trace ts @ pre @ TestMethod nm tc abortAllTests # post
   \<longrightarrow> (\<exists>r k f. post = [LogTestCaseFailed nm tc, LogAllTestsAborted, ReadTestCase r,
                          LogTestFooter nm k f, LogFooter])"
proof
  assume a: "(TestSuite_all registry ts = Some tsRun
     \<or> TestSuite_one registry testName ts = Some tsRun
     \<or> TestSuite_group registry testNames ts = Some tsRun
     \<or> TestSuite_group_va registry firstTestName argList ts = Some tsRun)
   \<and> trace tsRun = trace ts @ pre @ TestMethod nm tc abortAllTests # post"
  then obtain tests where "(tests = registry \<and> TestSuite_all registry ts = Some tsRun)
     \<or> (tests = selection registry [testName] \<and> TestSuite_one registry testName ts = Some tsRun)
     \<or> (tests = selection registry testNames \<and> TestSuite_group registry testNames ts = Some tsRun)
     \<or> (tests = selection registry (firstTestName # argList) \<and>
          TestSuite_group_va registry firstTestName argList ts = Some tsRun)"
    by blast
  then have op: "\<exists>hdr tsEnd. runTests registry tests (emits hdr (prepared ts)) = Some tsEnd \<and>
           tsRun = emits [LogFooter] tsEnd \<and>
           (\<forall>e\<in>set hdr. e = LogHeader \<or> (\<exists>n. e = LogUnknownTestName n))"
    by (rule operation_runTests)
  from a have split: "trace tsRun = trace ts @ pre @ TestMethod nm tc abortAllTests # post"
    by simp
  let ?Q = "\<lambda>e post. \<forall>nm tc res. e = TestMethod nm tc res \<longrightarrow>
          res = abortThisTest \<or> res = abortAllTests \<longrightarrow>
          (\<exists>r k f rest. post = LogTestCaseFailed nm tc # abortNotice nm res # ReadTestCase r #
                 LogTestFooter nm k f # rest \<and>
               (if res = abortAllTests then rest = [LogFooter]
                else \<exists>r' rest'. rest = ReadTestName r' # rest'))"
  have "?Q (TestMethod nm tc abortAllTests) post"
    by (rule operation_eachEvent [where Q = ?Q, OF op abort_then_footer _ _ split]) auto
  then show "\<exists>r k f. post = [LogTestCaseFailed nm tc, LogAllTestsAborted, ReadTestCase r,
                          LogTestFooter nm k f, LogFooter]"
    by (simp add: abortNotice_def)
qed

theorem abortAllTests_ends_the_run_witness:
  "TestSuite_all [verdictTest ''alpha'', verdictTest ''beta'']
     (suiteOn (unlines ['':alpha'', ''pass'', ''abortAllTests'', ''pass'', '':beta'', ''pass''])) \<noteq> None
   \<and> (\<exists>r k f. drop 8 (trace (the (TestSuite_all [verdictTest ''alpha'', verdictTest ''beta'']
          (suiteOn (unlines ['':alpha'', ''pass'', ''abortAllTests'', ''pass'', '':beta'', ''pass'']))))) =
        [LogTestCaseFailed ''alpha'' (TestCase 2 3 ''abortAllTests''), LogAllTestsAborted,
         ReadTestCase r, LogTestFooter ''alpha'' k f, LogFooter])
   \<and> map_option trace (TestSuite_all [verdictTest ''alpha'', verdictTest ''beta'']
          (suiteOn (unlines ['':alpha'', ''pass'', ''abortAllTests'', ''pass'', '':beta'', ''pass'']))) =
      Some [LogHeader, ReadTestName (Some ''alpha''), ReadTestCase (Some ''pass''),
            LogTestHeader ''alpha'',
            TestMethod ''alpha'' (TestCase 1 2 ''pass'') pass,
            LogTestCasePassed ''alpha'' (TestCase 1 2 ''pass''),
            ReadTestCase (Some ''abortAllTests''),
            TestMethod ''alpha'' (TestCase 2 3 ''abortAllTests'') abortAllTests,
            LogTestCaseFailed ''alpha'' (TestCase 2 3 ''abortAllTests''),
            LogAllTestsAborted, ReadTestCase (Some ''pass''),
            LogTestFooter ''alpha'' 2 1, LogFooter]"
proof -
  let ?R = "[verdictTest ''alpha'', verdictTest ''beta'']"
  let ?S = "suiteOn (unlines ['':alpha'', ''pass'', ''abortAllTests'', ''pass'', '':beta'', ''pass''])"
  let ?pre = "[LogHeader, ReadTestName (Some ''alpha''), ReadTestCase (Some ''pass''),
            LogTestHeader ''alpha'',
            TestMethod ''alpha'' (TestCase 1 2 ''pass'') pass,
            LogTestCasePassed ''alpha'' (TestCase 1 2 ''pass''),
            ReadTestCase (Some ''abortAllTests'')]"
  let ?post = "drop 8 (trace (the (TestSuite_all ?R ?S)))"
  note t = abortAllTests_ends_the_run [where registry = "?R" and ts = "?S"
      and tsRun = "the (TestSuite_all ?R ?S)" and pre = "?pre" and nm = "''alpha''"
      and tc = "TestCase 2 3 ''abortAllTests''" and post = "?post"]
  have run: "TestSuite_all ?R ?S = Some (the (TestSuite_all ?R ?S))" by code_simp
  have ne: "TestSuite_all ?R ?S \<noteq> None" by code_simp
  have tr: "trace (the (TestSuite_all ?R ?S)) = trace ?S @ ?pre @
      TestMethod ''alpha'' (TestCase 2 3 ''abortAllTests'') abortAllTests # ?post"
    by code_simp
  from t run tr have a: "\<exists>r k f. ?post =
        [LogTestCaseFailed ''alpha'' (TestCase 2 3 ''abortAllTests''), LogAllTestsAborted,
         ReadTestCase r, LogTestFooter ''alpha'' k f, LogFooter]"
    by blast
  have full: "map_option trace (TestSuite_all ?R ?S) =
      Some (?pre @ [TestMethod ''alpha'' (TestCase 2 3 ''abortAllTests'') abortAllTests,
            LogTestCaseFailed ''alpha'' (TestCase 2 3 ''abortAllTests''),
            LogAllTestsAborted, ReadTestCase (Some ''pass''),
            LogTestFooter ''alpha'' 2 1, LogFooter])"
    by code_simp
  from ne a full show ?thesis by simp
qed




end
